theory Spec2Isabelle
  imports Complex_Main "HOL-Library.AList" "HOL-Library.Product_Lexorder"
begin

section \<open>Text processing (text\_processor.py)\<close>

subsection \<open>Python strings and character classes\<close>

text \<open>
  A Python \<^verbatim>\<open>str\<close> is a sequence of Unicode code points and \<^verbatim>\<open>len\<close> counts code
  points, so a string is modelled as a list of code points (natural numbers).
\<close>

type_synonym codepoint = nat
type_synonym pystr = "codepoint list"

definition of_ascii :: "string \<Rightarrow> pystr" where
  "of_ascii s = map of_char s"

text \<open>
  \<^verbatim>\<open>\s\<close> in a \<^verbatim>\<open>str\<close> pattern and \<^verbatim>\<open>str.strip()\<close> both use CPython's
  \<^verbatim>\<open>Py_UNICODE_ISSPACE\<close>: U+0009..U+000D, U+001C..U+001F, U+0020, U+0085, U+00A0,
  U+1680, U+2000..U+200A, U+2028, U+2029, U+202F, U+205F, U+3000.
\<close>

definition is_space :: "codepoint \<Rightarrow> bool" where
  "is_space c =
     ((9 \<le> c \<and> c \<le> 13) \<or> (28 \<le> c \<and> c \<le> 32) \<or> c = 133 \<or> c = 160 \<or> c = 5760 \<or>
      (8192 \<le> c \<and> c \<le> 8202) \<or> c = 8232 \<or> c = 8233 \<or> c = 8239 \<or> c = 8287 \<or>
      c = 12288)"

text \<open>
  \<^verbatim>\<open>\w\<close> is \<^verbatim>\<open>Py_UNICODE_ISALNUM(c) or c == '_'\<close>. The alphanumeric table of the
  Unicode database is not part of the repository: it is the parameter \<open>alnum\<close> of
  every function that uses \<^verbatim>\<open>\w\<close>. \<open>ascii_alnum\<close> is that table on ASCII.
\<close>

definition is_word :: "(codepoint \<Rightarrow> bool) \<Rightarrow> codepoint \<Rightarrow> bool" where
  "is_word alnum c = (alnum c \<or> c = 95)"

definition ascii_alnum :: "codepoint \<Rightarrow> bool" where
  "ascii_alnum c = ((48 \<le> c \<and> c \<le> 57) \<or> (65 \<le> c \<and> c \<le> 90) \<or> (97 \<le> c \<and> c \<le> 122))"

subsection \<open>clean\_text\<close>

text \<open>\<^verbatim>\<open>re.sub(r"\s+", " ", text)\<close>: every maximal run of whitespace becomes one space.\<close>

function sub_spaces :: "pystr \<Rightarrow> pystr" where
  "sub_spaces [] = []"
| "sub_spaces (c # cs) =
     (if is_space c then 32 # sub_spaces (dropWhile is_space cs) else c # sub_spaces cs)"
  by pat_completeness auto
termination
  by (relation "measure length") (auto simp: less_Suc_eq_le length_dropWhile_le)

text \<open>
  \<^verbatim>\<open>re.sub(r"[^\w\s.,;:!?()-]", "", text)\<close>: a character stays when it is a word
  character, whitespace, or one of \<^verbatim>\<open>. , ; : ! ? ( ) -\<close>.
\<close>

definition kept_char :: "(codepoint \<Rightarrow> bool) \<Rightarrow> codepoint \<Rightarrow> bool" where
  "kept_char alnum c =
     (is_word alnum c \<or> is_space c \<or> c = 46 \<or> c = 44 \<or> c = 59 \<or> c = 58 \<or> c = 33 \<or>
      c = 63 \<or> c = 40 \<or> c = 41 \<or> c = 45)"

definition sub_special :: "(codepoint \<Rightarrow> bool) \<Rightarrow> pystr \<Rightarrow> pystr" where
  "sub_special alnum text = filter (kept_char alnum) text"

text \<open>\<^verbatim>\<open>str.strip()\<close>: leading and trailing whitespace is dropped.\<close>

definition strip :: "pystr \<Rightarrow> pystr" where
  "strip text = rev (dropWhile is_space (rev (dropWhile is_space text)))"

definition clean_text :: "(codepoint \<Rightarrow> bool) \<Rightarrow> pystr \<Rightarrow> pystr" where
  "clean_text alnum text =
     (if text = [] then []
      else strip (sub_special alnum (sub_spaces text)))"

subsection \<open>split\_text\<close>

record text_processor =
  min_length :: int
  max_length :: int

text \<open>
  \<^verbatim>\<open>re.split(r"(?<=[.!?])\s+", text)\<close>: the text is cut at every maximal run of
  whitespace whose first character directly follows one of \<^verbatim>\<open>. ! ?\<close>; the run is
  dropped. \<open>prev\<close> is the character before the scanning position (none at the start),
  \<open>piece\<close> the text since the last cut.
\<close>

definition is_terminator :: "codepoint \<Rightarrow> bool" where
  "is_terminator c = (c = 46 \<or> c = 33 \<or> c = 63)"

function re_split_from :: "codepoint option \<Rightarrow> pystr \<Rightarrow> pystr \<Rightarrow> pystr list" where
  "re_split_from prev piece [] = [piece]"
| "re_split_from prev piece (c # cs) =
     (if is_space c \<and> (case prev of None \<Rightarrow> False | Some p \<Rightarrow> is_terminator p)
      then piece #
        re_split_from (Some (last (c # takeWhile is_space cs))) [] (dropWhile is_space cs)
      else re_split_from (Some c) (piece @ [c]) cs)"
  by pat_completeness auto
termination
  by (relation "measure (\<lambda>(prev, piece, cs). length cs)")
     (auto simp: less_Suc_eq_le length_dropWhile_le)

definition re_split :: "pystr \<Rightarrow> pystr list" where
  "re_split text = re_split_from None [] text"

text \<open>\<^verbatim>\<open>" ".join(current_chunk)\<close>\<close>

fun join_space :: "pystr list \<Rightarrow> pystr" where
  "join_space [] = []"
| "join_space [s] = s"
| "join_space (s # t # ss) = s @ 32 # join_space (t # ss)"

text \<open>
  Closing a chunk: the joined text is appended to \<open>chunks\<close> when it is at least
  \<open>min_length\<close> long. The source does this at two places, inside the loop and after it.
\<close>

definition close_chunk :: "text_processor \<Rightarrow> pystr list \<Rightarrow> pystr list \<Rightarrow> pystr list" where
  "close_chunk tp current_chunk chunks =
     (let chunk_text = join_space current_chunk
      in if int (length chunk_text) \<ge> min_length tp then chunks @ [chunk_text] else chunks)"

text \<open>
  The \<^verbatim>\<open>for sentence in sentences\<close> loop, on the state
  \<open>(current_chunk, chunks, current_length)\<close>.
\<close>

fun split_loop ::
  "text_processor \<Rightarrow> int \<Rightarrow> pystr list \<Rightarrow> pystr list \<times> pystr list \<times> int
     \<Rightarrow> pystr list \<times> pystr list \<times> int" where
  "split_loop tp chunk_size [] st = st"
| "split_loop tp chunk_size (sentence # rest) (current_chunk, chunks, current_length) =
     (let sentence_length = int (length sentence) in
      case (if current_length + sentence_length > chunk_size \<and> current_chunk \<noteq> []
            then ([], close_chunk tp current_chunk chunks, 0)
            else (current_chunk, chunks, current_length)) of
        (current_chunk', chunks', current_length') \<Rightarrow>
          split_loop tp chunk_size rest
            (current_chunk' @ [sentence], chunks', current_length' + sentence_length))"

definition split_text ::
  "(codepoint \<Rightarrow> bool) \<Rightarrow> text_processor \<Rightarrow> pystr \<Rightarrow> int \<Rightarrow> int \<Rightarrow> pystr list" where
  "split_text alnum tp text chunk_size overlap =
     (if text = [] then []
      else
        (case split_loop tp chunk_size (re_split (clean_text alnum text)) ([], [], 0) of
          (current_chunk, chunks, current_length) \<Rightarrow>
            if current_chunk \<noteq> [] then close_chunk tp current_chunk chunks else chunks))"

section \<open>Vector store (vector\_store.py)\<close>

subsection \<open>Dictionaries, arrays and floats\<close>

text \<open>
  A Python \<^verbatim>\<open>dict\<close> iterates in insertion order, and the order decides ties in
  \<^verbatim>\<open>search\<close>, so a dictionary is an association list in insertion order:
  \<^verbatim>\<open>d[k] = v\<close> is \<^const>\<open>AList.update\<close> (an existing key keeps its place, a new key
  goes to the end), \<^verbatim>\<open>del d[k]\<close> is \<^const>\<open>AList.delete\<close>, \<^verbatim>\<open>d[k]\<close> and
  \<^verbatim>\<open>k in d\<close> are \<^const>\<open>map_of\<close>.
\<close>

type_synonym ('k, 'v) pydict = "('k \<times> 'v) list"

datatype py_error = KeyError | ValueError

text \<open>
  A vector is a one-dimensional \<^verbatim>\<open>np.ndarray\<close> of finite numbers. Floating-point
  rounding and overflow are not modelled: \<^verbatim>\<open>np.dot\<close> and \<^verbatim>\<open>np.linalg.norm\<close> compute
  in exact real arithmetic. What is modelled of IEEE arithmetic is the division, which
  does not raise in numpy: \<^verbatim>\<open>0/0\<close> is NaN and \<^verbatim>\<open>x/0\<close> is an infinity.
\<close>

type_synonym ndarray = "real list"

datatype npfloat = Num real | PosInf | NegInf | NaN

text \<open>\<^verbatim>\<open>np.dot\<close> of two one-dimensional arrays raises ValueError when the lengths differ.\<close>

definition np_dot :: "ndarray \<Rightarrow> ndarray \<Rightarrow> py_error + real" where
  "np_dot a b =
     (if length a \<noteq> length b then Inl ValueError
      else Inr (sum_list (map2 (\<lambda>x y. x * y) a b)))"

definition np_norm :: "ndarray \<Rightarrow> real" where
  "np_norm a = sqrt (sum_list (map (\<lambda>x. x * x) a))"

definition np_div :: "real \<Rightarrow> real \<Rightarrow> npfloat" where
  "np_div x y =
     (if y \<noteq> 0 then Num (x / y)
      else if x = 0 then NaN
      else if x > 0 then PosInf else NegInf)"

text \<open>Python's \<^verbatim>\<open><\<close> on floats: false whenever an operand is NaN.\<close>

fun np_lt :: "npfloat \<Rightarrow> npfloat \<Rightarrow> bool" where
  "np_lt NaN y = False"
| "np_lt x NaN = False"
| "np_lt (Num a) (Num b) = (a < b)"
| "np_lt (Num a) PosInf = True"
| "np_lt (Num a) NegInf = False"
| "np_lt PosInf y = False"
| "np_lt NegInf NegInf = False"
| "np_lt NegInf y = True"

text \<open>
  \<^verbatim>\<open>sorted(xs, key=key, reverse=True)\<close>. \<^verbatim>\<open>list.sort\<close> is a stable sort that compares
  keys with \<^verbatim>\<open><\<close> only; for \<^verbatim>\<open>reverse=True\<close> it reverses the list, sorts it ascending
  and reverses the result, which keeps elements with equal keys in their original
  order. The ascending sort is modelled as a stable insertion sort: every stable sort
  returns the same list when \<^verbatim>\<open><\<close> is a strict weak order on the keys. With NaN among
  the keys \<^verbatim>\<open><\<close> is no such order and the result of \<^verbatim>\<open>list.sort\<close> depends on the runs it
  finds; a list in which no element is \<^verbatim>\<open><\<close> its predecessor is one ascending run for
  \<^verbatim>\<open>list.sort\<close>, which returns it as it is, and so does the insertion sort.
\<close>

fun insort_lt :: "('a \<Rightarrow> npfloat) \<Rightarrow> 'a \<Rightarrow> 'a list \<Rightarrow> 'a list" where
  "insort_lt key x [] = [x]"
| "insort_lt key x (y # ys) =
     (if np_lt (key y) (key x) then y # insort_lt key x ys else x # y # ys)"

definition list_sort :: "('a \<Rightarrow> npfloat) \<Rightarrow> 'a list \<Rightarrow> 'a list" where
  "list_sort key xs = foldr (insort_lt key) xs []"

definition sorted_reverse :: "('a \<Rightarrow> npfloat) \<Rightarrow> 'a list \<Rightarrow> 'a list" where
  "sorted_reverse key xs = rev (list_sort key (rev xs))"

text \<open>The slice \<^verbatim>\<open>xs[:k]\<close>; a negative \<open>k\<close> counts from the end.\<close>

definition slice_to :: "int \<Rightarrow> 'a list \<Rightarrow> 'a list" where
  "slice_to k xs = (if k \<ge> 0 then take (nat k) xs else take (length xs - nat (- k)) xs)"

subsection \<open>The store and its operations\<close>

text \<open>
  The two dictionaries of \<^verbatim>\<open>VectorStore\<close>. A metadata entry is itself a dictionary.
  The database client, the collection and the embedding model are external objects
  that no operation below touches.
\<close>

record ('id, 'a) vector_store =
  vectors :: "('id, ndarray) pydict"
  metadata :: "('id, (string, 'a) pydict) pydict"

definition init :: "('id, 'a) vector_store" where
  "init = \<lparr>vectors = [], metadata = []\<rparr>"

text \<open>\<^verbatim>\<open>metadata or {}\<close>: \<^verbatim>\<open>None\<close> and the empty dictionary both give an empty dictionary.\<close>

definition add ::
  "'id \<Rightarrow> ndarray \<Rightarrow> (string, 'a) pydict option \<Rightarrow> ('id, 'a) vector_store
     \<Rightarrow> ('id, 'a) vector_store" where
  "add i vector md s =
     s\<lparr>vectors := AList.update i vector (vectors s),
       metadata := AList.update i (case md of None \<Rightarrow> [] | Some d \<Rightarrow> d) (metadata s)\<rparr>"

record 'a entry =
  entry_vector :: ndarray
  entry_metadata :: "(string, 'a) pydict"

text \<open>
  Every method returns its result together with the store it leaves behind;
  \<^verbatim>\<open>self.metadata[id]\<close> raises KeyError when the key is missing.
\<close>

definition get ::
  "'id \<Rightarrow> ('id, 'a) vector_store \<Rightarrow> (py_error + 'a entry option) \<times> ('id, 'a) vector_store" where
  "get i s =
     (case map_of (vectors s) i of
        None \<Rightarrow> (Inr None, s)
      | Some v \<Rightarrow>
          (case map_of (metadata s) i of
             None \<Rightarrow> (Inl KeyError, s)
           | Some m \<Rightarrow> (Inr (Some \<lparr>entry_vector = v, entry_metadata = m\<rparr>), s)))"

definition cosine_similarity :: "ndarray \<Rightarrow> ndarray \<Rightarrow> py_error + npfloat" where
  "cosine_similarity query_vector vector =
     (case np_dot query_vector vector of
        Inl e \<Rightarrow> Inl e
      | Inr d \<Rightarrow> Inr (np_div d (np_norm query_vector * np_norm vector)))"

text \<open>The loop filling the dictionary \<^verbatim>\<open>similarities\<close>; it stops at the first error.\<close>

fun similarity_loop ::
  "ndarray \<Rightarrow> ('id, ndarray) pydict \<Rightarrow> ('id, npfloat) pydict \<Rightarrow> py_error + ('id, npfloat) pydict"
  where
  "similarity_loop query_vector [] similarities = Inr similarities"
| "similarity_loop query_vector ((i, vector) # rest) similarities =
     (case cosine_similarity query_vector vector of
        Inl e \<Rightarrow> Inl e
      | Inr similarity \<Rightarrow>
          similarity_loop query_vector rest (AList.update i similarity similarities))"

record ('id, 'a) hit =
  hit_id :: 'id
  hit_similarity :: npfloat
  hit_vector :: ndarray
  hit_metadata :: "(string, 'a) pydict"

text \<open>The list comprehension building the results from \<^verbatim>\<open>top_ids\<close>.\<close>

fun hits ::
  "('id, 'a) vector_store \<Rightarrow> ('id \<times> npfloat) list \<Rightarrow> py_error + ('id, 'a) hit list" where
  "hits s [] = Inr []"
| "hits s ((i, similarity) # rest) =
     (case map_of (vectors s) i of
        None \<Rightarrow> Inl KeyError
      | Some v \<Rightarrow>
          (case map_of (metadata s) i of
             None \<Rightarrow> Inl KeyError
           | Some m \<Rightarrow>
               (case hits s rest of
                  Inl e \<Rightarrow> Inl e
                | Inr rs \<Rightarrow>
                    Inr (\<lparr>hit_id = i, hit_similarity = similarity, hit_vector = v,
                          hit_metadata = m\<rparr> # rs))))"

definition search ::
  "ndarray \<Rightarrow> int \<Rightarrow> ('id, 'a) vector_store
     \<Rightarrow> (py_error + ('id, 'a) hit list) \<times> ('id, 'a) vector_store" where
  "search query_vector top_k s =
     (if vectors s = [] then (Inr [], s)
      else
        (case similarity_loop query_vector (vectors s) [] of
           Inl e \<Rightarrow> (Inl e, s)
         | Inr similarities \<Rightarrow>
             (let top_ids = slice_to top_k (sorted_reverse snd similarities)
              in (hits s top_ids, s))))"

text \<open>
  \<^verbatim>\<open>delete\<close>: when the second \<^verbatim>\<open>del\<close> raises, the first has already removed the
  vector.
\<close>

definition delete ::
  "'id \<Rightarrow> ('id, 'a) vector_store \<Rightarrow> (py_error + bool) \<times> ('id, 'a) vector_store" where
  "delete i s =
     (case map_of (vectors s) i of
        None \<Rightarrow> (Inr False, s)
      | Some v \<Rightarrow>
          (let s1 = s\<lparr>vectors := AList.delete i (vectors s)\<rparr> in
           case map_of (metadata s1) i of
             None \<Rightarrow> (Inl KeyError, s1)
           | Some m \<Rightarrow> (Inr True, s1\<lparr>metadata := AList.delete i (metadata s1)\<rparr>)))"

definition clear :: "('id, 'a) vector_store \<Rightarrow> ('id, 'a) vector_store" where
  "clear s = s\<lparr>vectors := [], metadata := []\<rparr>"

text \<open>A call of one of the five methods, and the store after a sequence of calls.\<close>

datatype ('id, 'a) call =
  Add 'id ndarray "(string, 'a) pydict option"
| Get 'id
| Search ndarray int
| Delete 'id
| Clear

fun call_store :: "('id, 'a) call \<Rightarrow> ('id, 'a) vector_store \<Rightarrow> ('id, 'a) vector_store" where
  "call_store (Add i vector md) s = add i vector md s"
| "call_store (Get i) s = snd (get i s)"
| "call_store (Search query_vector top_k) s = snd (search query_vector top_k s)"
| "call_store (Delete i) s = snd (delete i s)"
| "call_store Clear s = clear s"

definition run :: "('id, 'a) call list \<Rightarrow> ('id, 'a) vector_store \<Rightarrow> ('id, 'a) vector_store" where
  "run calls s = fold call_store calls s"

section \<open>Configuration (config.py)\<close>

text \<open>A value loaded from YAML.\<close>

datatype yaml =
  YNone | YBool bool | YInt int | YStr string | YList "yaml list"
| YDict "(string \<times> yaml) list"

record config =
  config_path :: string
  config_dict :: "(string, yaml) pydict"

text \<open>\<^verbatim>\<open>Config.get\<close>: \<^verbatim>\<open>self.config.get(key, default)\<close>, one lookup in the top-level dictionary.\<close>

definition config_get :: "config \<Rightarrow> string \<Rightarrow> yaml \<Rightarrow> yaml" where
  "config_get c key dflt =
     (case map_of (config_dict c) key of None \<Rightarrow> dflt | Some v \<Rightarrow> v)"

text \<open>
  The specification's reading of \<^verbatim>\<open>get\<close>, for comparison with \<open>config_get\<close>: a dotted
  key such as \<^verbatim>\<open>vector_db.collection_name\<close> names a path into the nested
  configuration, and the default is returned when the path is absent.
\<close>

fun split_dots_from :: "string \<Rightarrow> string \<Rightarrow> string list" where
  "split_dots_from piece [] = [piece]"
| "split_dots_from piece (c # cs) =
     (if c = CHR ''.'' then piece # split_dots_from [] cs
      else split_dots_from (piece @ [c]) cs)"

fun lookup_path :: "yaml \<Rightarrow> string list \<Rightarrow> yaml option" where
  "lookup_path v [] = Some v"
| "lookup_path (YDict d) (k # ks) =
     (case map_of d k of None \<Rightarrow> None | Some v \<Rightarrow> lookup_path v ks)"
| "lookup_path v (k # ks) = None"

definition spec_get_dotted :: "config \<Rightarrow> string \<Rightarrow> yaml \<Rightarrow> yaml" where
  "spec_get_dotted c key dflt =
     (case lookup_path (YDict (config_dict c)) (split_dots_from [] key) of
        None \<Rightarrow> dflt
      | Some v \<Rightarrow> v)"

section \<open>Predicates used in the statements\<close>

text \<open>
  The invariant of the store: the keys of a dictionary are distinct, and the two
  dictionaries hold the same keys in the same order.
\<close>

definition store_inv :: "('id, 'a) vector_store \<Rightarrow> bool" where
  "store_inv s =
     (distinct (map fst (vectors s)) \<and> map fst (metadata s) = map fst (vectors s))"

text \<open>
  Python's \<^verbatim>\<open><=\<close> on floats, and a list of similarities in descending order: every
  element is \<^verbatim>\<open>>=\<close> every later one.
\<close>

definition np_le :: "npfloat \<Rightarrow> npfloat \<Rightarrow> bool" where
  "np_le x y = (np_lt x y \<or> (x = y \<and> x \<noteq> NaN))"

definition descending :: "npfloat list \<Rightarrow> bool" where
  "descending xs = sorted_wrt (\<lambda>a b. np_le b a) xs"

text \<open>\<open>precedes x y zs\<close>: some occurrence of \<open>x\<close> in \<open>zs\<close> comes before an occurrence of \<open>y\<close>.\<close>

fun precedes :: "'a \<Rightarrow> 'a \<Rightarrow> 'a list \<Rightarrow> bool" where
  "precedes x y [] = False"
| "precedes x y (z # zs) = ((z = x \<and> y \<in> set zs) \<or> precedes x y zs)"

text \<open>
  Used in the proofs about \<open>search\<close>: a rank that orders the floats other than NaN as
  \<open>np_lt\<close> does, and the similarities of the stored vectors as a list.
\<close>

fun rank :: "npfloat \<Rightarrow> int \<times> real" where
  "rank NegInf = (- 1, 0)"
| "rank (Num r) = (0, r)"
| "rank PosInf = (1, 0)"
| "rank NaN = (2, 0)"

definition score :: "ndarray \<Rightarrow> ndarray \<Rightarrow> npfloat" where
  "score q v = (case cosine_similarity q v of Inl e \<Rightarrow> NaN | Inr x \<Rightarrow> x)"

definition scores :: "ndarray \<Rightarrow> ('id, ndarray) pydict \<Rightarrow> ('id, npfloat) pydict" where
  "scores q items = map (\<lambda>(i, v). (i, score q v)) items"

text \<open>Two adjacent whitespace characters somewhere in a string.\<close>

fun adjacent_spaces :: "pystr \<Rightarrow> bool" where
  "adjacent_spaces (a # b # cs) = ((is_space a \<and> is_space b) \<or> adjacent_spaces (b # cs))"
| "adjacent_spaces cs = False"

text \<open>
  The chunking loop without the joining and the length test: \<open>group_loop\<close> collects the
  closed groups of sentences themselves. \<open>retained\<close> joins the groups and keeps the
  chunks that are long enough; \<open>alone\<close> says that a sentence longer than \<open>chunk_size\<close>
  is the only sentence of its group.
\<close>

fun group_loop ::
  "int \<Rightarrow> pystr list \<Rightarrow> pystr list \<times> pystr list list \<times> int
     \<Rightarrow> pystr list \<times> pystr list list \<times> int" where
  "group_loop chunk_size [] st = st"
| "group_loop chunk_size (sentence # rest) (current_chunk, groups, current_length) =
     (if current_length + int (length sentence) > chunk_size \<and> current_chunk \<noteq> []
      then group_loop chunk_size rest ([sentence], groups @ [current_chunk], int (length sentence))
      else group_loop chunk_size rest
             (current_chunk @ [sentence], groups, current_length + int (length sentence)))"

definition retained :: "text_processor \<Rightarrow> pystr list list \<Rightarrow> pystr list" where
  "retained tp groups =
     filter (\<lambda>chunk. min_length tp \<le> int (length chunk)) (map join_space groups)"

definition alone :: "int \<Rightarrow> pystr list \<Rightarrow> bool" where
  "alone chunk_size g = (\<forall>s\<in>set g. chunk_size < int (length s) \<longrightarrow> g = [s])"

section \<open>Properties of the text processor\<close>

subsection \<open>The chunking loop\<close>

lemma close_chunk_bound:
  "\<forall>c\<in>set chunks. min_length tp \<le> int (length c) \<Longrightarrow>
   \<forall>c\<in>set (close_chunk tp cur chunks). min_length tp \<le> int (length c)"
  by (simp add: close_chunk_def Let_def)

lemma split_loop_close:
  "current_length + int (length sentence) > chunk_size \<Longrightarrow> current_chunk \<noteq> [] \<Longrightarrow>
   split_loop tp chunk_size (sentence # rest) (current_chunk, chunks, current_length) =
   split_loop tp chunk_size rest
     ([sentence], close_chunk tp current_chunk chunks, int (length sentence))"
  by (simp add: Let_def)

lemma split_loop_extend:
  "\<not> (current_length + int (length sentence) > chunk_size \<and> current_chunk \<noteq> []) \<Longrightarrow>
   split_loop tp chunk_size (sentence # rest) (current_chunk, chunks, current_length) =
   split_loop tp chunk_size rest
     (current_chunk @ [sentence], chunks, current_length + int (length sentence))"
  by (auto simp: Let_def)

lemma split_loop_bound:
  "\<forall>c\<in>set chunks. min_length tp \<le> int (length c) \<Longrightarrow>
   \<forall>c\<in>set (fst (snd (split_loop tp chunk_size ss (cur, chunks, n)))).
      min_length tp \<le> int (length c)"
proof (induction ss arbitrary: cur chunks n)
  case Nil
  then show ?case by simp
next
  case (Cons s ss)
  show ?case
  proof (cases "n + int (length s) > chunk_size \<and> cur \<noteq> []")
    case True
    then have "split_loop tp chunk_size (s # ss) (cur, chunks, n) =
        split_loop tp chunk_size ss ([s], close_chunk tp cur chunks, int (length s))"
      by (simp add: split_loop_close del: split_loop.simps)
    then show ?thesis
      using Cons.IH [OF close_chunk_bound [OF Cons.prems]] by simp
  next
    case False
    then have "split_loop tp chunk_size (s # ss) (cur, chunks, n) =
        split_loop tp chunk_size ss (cur @ [s], chunks, n + int (length s))"
      by (rule split_loop_extend)
    then show ?thesis
      using Cons.IH [OF Cons.prems] by simp
  qed
qed

text \<open>A worked example: four sentences, \<open>min_length = 3\<close>, \<open>chunk_size = 3\<close>.\<close>

lemma ex1_clean:
  "clean_text ascii_alnum (of_ascii ''Hi. Yo. A. Hello.'') = of_ascii ''Hi. Yo. A. Hello.''"
  by (simp add: clean_text_def of_ascii_def is_space_def strip_def sub_special_def
      kept_char_def is_word_def ascii_alnum_def)

lemma ex1_sentences:
  "re_split (of_ascii ''Hi. Yo. A. Hello.'') =
     [of_ascii ''Hi.'', of_ascii ''Yo.'', of_ascii ''A.'', of_ascii ''Hello.'']"
  by (simp add: re_split_def of_ascii_def is_space_def is_terminator_def)

lemma ex1_split:
  "split_text ascii_alnum \<lparr>min_length = 3, max_length = 10000\<rparr>
     (of_ascii ''Hi. Yo. A. Hello.'') 3 200 =
     [of_ascii ''Hi.'', of_ascii ''Yo.'', of_ascii ''Hello.'']"
  by (simp add: split_text_def ex1_clean ex1_sentences close_chunk_def Let_def)
     (simp add: of_ascii_def)

text \<open>
  C1: every chunk returned by \<open>split_text\<close> is at least \<open>min_length\<close> characters long,
  for every text, every \<open>chunk_size\<close> and every \<open>overlap\<close>.
\<close>

theorem split_text_min_length:
  "\<forall>chunk\<in>set (split_text alnum tp text chunk_size overlap).
     int (length chunk) \<ge> min_length tp"
proof (cases "text = []")
  case True
  then show ?thesis by (simp add: split_text_def)
next
  case False
  obtain cur chunks n where
    st: "split_loop tp chunk_size (re_split (clean_text alnum text)) ([], [], 0) = (cur, chunks, n)"
    by (cases "split_loop tp chunk_size (re_split (clean_text alnum text)) ([], [], 0)") auto
  have b: "\<forall>c\<in>set chunks. min_length tp \<le> int (length c)"
    using split_loop_bound [of "[]" tp chunk_size "re_split (clean_text alnum text)" "[]" 0]
    by (simp add: st)
  show ?thesis
    using False b close_chunk_bound [OF b, of cur]
    by (simp add: split_text_def st)
qed

theorem split_text_min_length_witness:
  "of_ascii ''Hello.'' \<in> set (split_text ascii_alnum \<lparr>min_length = 3, max_length = 10000\<rparr>
       (of_ascii ''Hi. Yo. A. Hello.'') 3 200) \<and>
   int (length (of_ascii ''Hello.'')) \<ge> min_length \<lparr>min_length = 3, max_length = 10000\<rparr>"
proof -
  have m: "of_ascii ''Hello.'' \<in> set (split_text ascii_alnum
       \<lparr>min_length = 3, max_length = 10000\<rparr> (of_ascii ''Hi. Yo. A. Hello.'') 3 200)"
    by (simp add: ex1_split)
  from split_text_min_length [THEN bspec, OF m] m show ?thesis by simp
qed

text \<open>
  C8: the result of \<open>split_text\<close> does not depend on \<open>overlap\<close>: any two overlap values
  give the same chunks.
\<close>

theorem split_text_overlap_unused:
  "split_text alnum tp text chunk_size overlap1 = split_text alnum tp text chunk_size overlap2"
  by (simp add: split_text_def)

subsection \<open>Chunks are groups of whole sentences\<close>

lemma close_chunk_retained:
  "close_chunk tp cur (retained tp groups) = retained tp (groups @ [cur])"
  by (simp add: close_chunk_def retained_def Let_def)

lemma split_loop_group_loop:
  "split_loop tp chunk_size ss (cur, retained tp groups, n) =
     (case group_loop chunk_size ss (cur, groups, n) of
        (cur', groups', n') \<Rightarrow> (cur', retained tp groups', n'))"
proof (induction ss arbitrary: cur groups n)
  case Nil
  then show ?case by simp
next
  case (Cons s ss)
  show ?case
  proof (cases "n + int (length s) > chunk_size \<and> cur \<noteq> []")
    case True
    then show ?thesis
      using Cons.IH [of "[s]" "groups @ [cur]" "int (length s)"]
      by (simp add: split_loop_close close_chunk_retained del: split_loop.simps)
  next
    case False
    then have "split_loop tp chunk_size (s # ss) (cur, retained tp groups, n) =
        split_loop tp chunk_size ss (cur @ [s], retained tp groups, n + int (length s))"
      by (rule split_loop_extend)
    then show ?thesis
      using False Cons.IH [of "cur @ [s]" groups "n + int (length s)"] by auto
  qed
qed

lemma group_loop_concat:
  "group_loop chunk_size ss (cur, groups, n) = (cur', groups', n') \<Longrightarrow>
   concat groups' @ cur' = concat groups @ cur @ ss"
  by (induction ss arbitrary: cur groups n) (auto split: if_splits)

lemma group_loop_nonempty:
  "group_loop chunk_size ss (cur, groups, n) = (cur', groups', n') \<Longrightarrow>
   [] \<notin> set groups \<Longrightarrow> [] \<notin> set groups' \<and> (cur \<noteq> [] \<or> ss \<noteq> [] \<longrightarrow> cur' \<noteq> [])"
  by (induction ss arbitrary: cur groups n) (auto split: if_splits)

lemma total_length_nonneg: "0 \<le> (\<Sum>s\<leftarrow>cur. int (length s))"
  by (induction cur) auto

lemma length_le_total: "x \<in> set cur \<Longrightarrow> int (length x) \<le> (\<Sum>s\<leftarrow>cur. int (length s))"
proof (induction cur)
  case Nil
  then show ?case by simp
next
  case (Cons a cur)
  have "0 \<le> (\<Sum>s\<leftarrow>cur. int (length s))" by (rule total_length_nonneg)
  with Cons show ?case by auto
qed

lemma group_loop_alone:
  "group_loop chunk_size ss (cur, groups, n) = (cur', groups', n') \<Longrightarrow>
   n = (\<Sum>s\<leftarrow>cur. int (length s)) \<Longrightarrow> alone chunk_size cur \<Longrightarrow>
   \<forall>g\<in>set groups. alone chunk_size g \<Longrightarrow>
   alone chunk_size cur' \<and> (\<forall>g\<in>set groups'. alone chunk_size g)"
proof (induction ss arbitrary: cur groups n)
  case Nil
  then show ?case by simp
next
  case (Cons s ss)
  show ?case
  proof (cases "n + int (length s) > chunk_size \<and> cur \<noteq> []")
    case True
    with Cons.prems have
      "group_loop chunk_size ss ([s], groups @ [cur], int (length s)) = (cur', groups', n')"
      by simp
    then show ?thesis
      by (rule Cons.IH) (use Cons.prems in \<open>auto simp: alone_def\<close>)
  next
    case False
    with Cons.prems have g:
      "group_loop chunk_size ss (cur @ [s], groups, n + int (length s)) = (cur', groups', n')"
      by auto
    have le: "\<And>x. x \<in> set cur \<Longrightarrow> int (length x) \<le> n"
      unfolding Cons.prems(2) by (rule length_le_total)
    have "alone chunk_size (cur @ [s])"
    proof (cases "cur = []")
      case True
      then show ?thesis by (simp add: alone_def)
    next
      case nonempty: False
      with False have "n + int (length s) \<le> chunk_size" by simp
      moreover have "0 \<le> n" unfolding Cons.prems(2) by (rule total_length_nonneg)
      ultimately show ?thesis
        using le by (fastforce simp: alone_def)
    qed
    then show ?thesis
      using Cons.IH [OF g] Cons.prems by simp
  qed
qed


lemma re_split_from_nonempty: "re_split_from prev piece cs \<noteq> []"
  by (induction prev piece cs rule: re_split_from.induct) auto

lemma re_split_nonempty: "re_split text \<noteq> []"
  by (simp add: re_split_def re_split_from_nonempty)

lemma split_text_groups:
  assumes "text \<noteq> []"
    and "group_loop chunk_size (re_split (clean_text alnum text)) ([], [], 0) = (cur, groups, n)"
  shows "split_text alnum tp text chunk_size overlap = retained tp (groups @ [cur])"
proof -
  have "cur \<noteq> []"
    using group_loop_nonempty [OF assms(2)] re_split_nonempty by simp
  moreover have "split_loop tp chunk_size (re_split (clean_text alnum text)) ([], [], 0) =
      (cur, retained tp groups, n)"
    using split_loop_group_loop [of tp chunk_size "re_split (clean_text alnum text)" "[]" "[]" 0]
    by (simp add: assms(2) retained_def)
  ultimately show ?thesis
    using assms(1) by (simp add: split_text_def close_chunk_retained)
qed

text \<open>A second example: the middle sentence is longer than \<open>chunk_size = 5\<close>.\<close>

lemma ex2_clean:
  "clean_text ascii_alnum (of_ascii ''Hi. Hello there. Yo.'') = of_ascii ''Hi. Hello there. Yo.''"
  by (simp add: clean_text_def of_ascii_def is_space_def strip_def sub_special_def
      kept_char_def is_word_def ascii_alnum_def)

lemma ex2_sentences:
  "re_split (of_ascii ''Hi. Hello there. Yo.'') =
     [of_ascii ''Hi.'', of_ascii ''Hello there.'', of_ascii ''Yo.'']"
  by (simp add: re_split_def of_ascii_def is_space_def is_terminator_def)

text \<open>
  C6: for a non-empty text, the chunks are the joined groups of a partition of the
  sentence list into consecutive non-empty groups, filtered by \<open>min_length\<close> only: no
  sentence is ever cut. A sentence longer than \<open>chunk_size\<close> is a group of its own, so
  it is returned as a chunk, unchanged, whenever it is at least \<open>min_length\<close> long.
\<close>

theorem long_sentence_own_chunk:
  assumes "text \<noteq> []"
  shows "\<exists>groups.
     concat groups = re_split (clean_text alnum text) \<and> [] \<notin> set groups \<and>
     split_text alnum tp text chunk_size overlap =
       filter (\<lambda>chunk. min_length tp \<le> int (length chunk)) (map join_space groups) \<and>
     (\<forall>g\<in>set groups. \<forall>s\<in>set g. chunk_size < int (length s) \<longrightarrow> g = [s]) \<and>
     (\<forall>s\<in>set (re_split (clean_text alnum text)).
        chunk_size < int (length s) \<and> min_length tp \<le> int (length s) \<longrightarrow>
        s \<in> set (split_text alnum tp text chunk_size overlap))"
proof -
  let ?ss = "re_split (clean_text alnum text)"
  obtain cur groups n where g: "group_loop chunk_size ?ss ([], [], 0) = (cur, groups, n)"
    by (cases "group_loop chunk_size ?ss ([], [], 0)") auto
  let ?gs = "groups @ [cur]"
  have c: "concat ?gs = ?ss"
    using group_loop_concat [OF g] by simp
  have ne: "[] \<notin> set ?gs"
    using group_loop_nonempty [OF g] re_split_nonempty by auto
  have sp: "split_text alnum tp text chunk_size overlap = retained tp ?gs"
    using assms g by (rule split_text_groups)
  have al: "\<forall>g\<in>set ?gs. alone chunk_size g"
    using group_loop_alone [OF g] by (simp add: alone_def)
  have own: "\<forall>g\<in>set ?gs. \<forall>s\<in>set g. chunk_size < int (length s) \<longrightarrow> g = [s]"
    using al by (simp add: alone_def)
  have mem: "s \<in> set (split_text alnum tp text chunk_size overlap)"
    if s: "s \<in> set ?ss" and long: "chunk_size < int (length s)"
      and keep: "min_length tp \<le> int (length s)" for s
  proof -
    from s c have "s \<in> set (concat ?gs)" by simp
    then obtain g where gin: "g \<in> set ?gs" and sg: "s \<in> set g"
      unfolding set_concat by blast
    with own long have "g = [s]" by blast
    with gin have "[s] \<in> set ?gs" by simp
    then have "join_space [s] \<in> set (map join_space ?gs)"
      unfolding set_map by (rule imageI)
    with keep have "join_space [s] \<in> set (retained tp ?gs)"
      unfolding retained_def set_filter by simp
    then show ?thesis
      by (simp only: sp join_space.simps)
  qed
  show ?thesis
    apply (rule exI [of _ ?gs])
    using c ne sp own mem by (simp add: retained_def)
qed


theorem long_sentence_own_chunk_witness:
  "of_ascii ''Hi. Hello there. Yo.'' \<noteq> [] \<and>
   of_ascii ''Hello there.'' \<in>
     set (re_split (clean_text ascii_alnum (of_ascii ''Hi. Hello there. Yo.''))) \<and>
   5 < int (length (of_ascii ''Hello there.'')) \<and>
   min_length \<lparr>min_length = 3, max_length = 10000\<rparr> \<le> int (length (of_ascii ''Hello there.'')) \<and>
   of_ascii ''Hello there.'' \<in>
     set (split_text ascii_alnum \<lparr>min_length = 3, max_length = 10000\<rparr>
            (of_ascii ''Hi. Hello there. Yo.'') 5 200)"
proof -
  have ne: "of_ascii ''Hi. Hello there. Yo.'' \<noteq> []"
    by (simp add: of_ascii_def)
  have s: "of_ascii ''Hello there.'' \<in>
      set (re_split (clean_text ascii_alnum (of_ascii ''Hi. Hello there. Yo.'')))"
    by (simp add: ex2_clean ex2_sentences)
  have l: "5 < int (length (of_ascii ''Hello there.'')) \<and>
      min_length \<lparr>min_length = 3, max_length = 10000\<rparr> \<le> int (length (of_ascii ''Hello there.''))"
    by (simp add: of_ascii_def)
  from long_sentence_own_chunk [OF ne, of ascii_alnum "\<lparr>min_length = 3, max_length = 10000\<rparr>" 5 200]
  have "\<forall>s\<in>set (re_split (clean_text ascii_alnum (of_ascii ''Hi. Hello there. Yo.''))).
      5 < int (length s) \<and> min_length \<lparr>min_length = 3, max_length = 10000\<rparr> \<le> int (length s) \<longrightarrow>
      s \<in> set (split_text ascii_alnum \<lparr>min_length = 3, max_length = 10000\<rparr>
            (of_ascii ''Hi. Hello there. Yo.'') 5 200)"
    by blast
  with s l have "of_ascii ''Hello there.'' \<in>
      set (split_text ascii_alnum \<lparr>min_length = 3, max_length = 10000\<rparr>
            (of_ascii ''Hi. Hello there. Yo.'') 5 200)"
    by blast
  with ne s l show ?thesis by blast
qed

subsection \<open>Cleaning twice\<close>

lemma is_space_blank: "is_space 32"
  by (simp add: is_space_def)

lemma sub_spaces_only_blank: "c \<in> set (sub_spaces text) \<Longrightarrow> is_space c \<Longrightarrow> c = 32"
  by (induction "text" rule: sub_spaces.induct) (auto split: if_splits)

lemma set_sub_spaces: "set (sub_spaces text) \<subseteq> insert 32 (set text)"
proof (induction "text" rule: sub_spaces.induct)
  case 1
  then show ?case by simp
next
  case (2 c cs)
  show ?case
  proof (cases "is_space c")
    case True
    then have "set (sub_spaces (dropWhile is_space cs)) \<subseteq> insert 32 (set (dropWhile is_space cs))"
      using 2 by simp
    moreover have "set (dropWhile is_space cs) \<subseteq> set cs"
      by (auto dest: set_dropWhileD)
    ultimately show ?thesis using True by auto
  next
    case False
    then show ?thesis using 2 by auto
  qed
qed

lemma length_sub_spaces: "length (sub_spaces text) \<le> length text"
proof (induction "text" rule: sub_spaces.induct)
  case 1
  then show ?case by simp
next
  case (2 c cs)
  show ?case
  proof (cases "is_space c")
    case True
    have "length (dropWhile is_space cs) \<le> length cs" by (rule length_dropWhile_le)
    with True 2 show ?thesis by simp
  next
    case False
    then show ?thesis using 2 by simp
  qed
qed

lemma sub_spaces_hd: 
  "sub_spaces text = [] \<longleftrightarrow> text = []"
  by (cases "text") auto

lemma hd_sub_spaces_not_space:
  "text \<noteq> [] \<Longrightarrow> \<not> is_space (hd text) \<Longrightarrow> \<not> is_space (hd (sub_spaces text)) \<and> sub_spaces text \<noteq> []"
  by (cases "text") auto

lemma not_adjacent_sub_spaces: "\<not> adjacent_spaces (sub_spaces text)"
proof (induction "text" rule: sub_spaces.induct)
  case 1
  then show ?case by simp
next
  case (2 c cs)
  show ?case
  proof (cases "is_space c")
    case True
    let ?r = "dropWhile is_space cs"
    have ih: "\<not> adjacent_spaces (sub_spaces ?r)" using True 2 by simp
    show ?thesis
    proof (cases ?r)
      case Nil
      then have "sub_spaces ?r = []" by (simp only: sub_spaces.simps)
      then show ?thesis using True by simp
    next
      case (Cons d ds)
      then have nd: "\<not> is_space d" using hd_dropWhile [of is_space cs] by simp
      from Cons nd have "\<not> is_space (hd (sub_spaces ?r)) \<and> sub_spaces ?r \<noteq> []"
        using hd_sub_spaces_not_space [of ?r] by simp
      then obtain e es where e: "sub_spaces ?r = e # es" "\<not> is_space e"
        by (cases "sub_spaces ?r") auto
      with ih True show ?thesis by simp
    qed
  next
    case False
    then have ih: "\<not> adjacent_spaces (sub_spaces cs)" using 2 by simp
    show ?thesis
      using False ih by (cases "sub_spaces cs") auto
  qed
qed

lemma sub_spaces_fixed:
  "\<not> adjacent_spaces text \<Longrightarrow> \<forall>c\<in>set text. is_space c \<longrightarrow> c = 32 \<Longrightarrow> sub_spaces text = text"
proof (induction "text" rule: sub_spaces.induct)
  case 1
  then show ?case by simp
next
  case (2 c cs)
  show ?case
  proof (cases "is_space c")
    case True
    have dw: "dropWhile is_space cs = cs"
      using True "2.prems"(1) by (cases cs) auto
    have na: "\<not> adjacent_spaces cs"
      using "2.prems"(1) by (cases cs) auto
    have "sub_spaces cs = cs"
      using "2.IH"(1) [OF True] dw na "2.prems"(2) by simp
    moreover have "c = 32" using True "2.prems"(2) by simp
    ultimately show ?thesis using True dw by simp
  next
    case False
    have na: "\<not> adjacent_spaces cs"
      using "2.prems"(1) by (cases cs) auto
    then show ?thesis using False "2.IH"(2) "2.prems"(2) by simp
  qed
qed

lemma sub_spaces_shorter:
  "adjacent_spaces text \<Longrightarrow> length (sub_spaces text) < length text"
proof (induction "text" rule: sub_spaces.induct)
  case 1
  then show ?case by simp
next
  case (2 c cs)
  show ?case
  proof (cases "is_space c")
    case True
    let ?r = "dropWhile is_space cs"
    show ?thesis
    proof (cases "cs \<noteq> [] \<and> is_space (hd cs)")
      case sp: True
      then have "length ?r < length cs"
        by (cases cs) (auto simp: less_Suc_eq_le length_dropWhile_le)
      moreover have "length (sub_spaces ?r) \<le> length ?r" by (rule length_sub_spaces)
      ultimately show ?thesis using True by simp
    next
      case nsp: False
      then have dw: "?r = cs" by (cases cs) auto
      have "adjacent_spaces cs" using "2.prems" nsp by (cases cs) auto
      then have "length (sub_spaces cs) < length cs"
        using "2.IH"(1) [OF True] dw by simp
      then show ?thesis using True dw by simp
    qed
  next
    case False
    have "adjacent_spaces cs" using "2.prems" False by (cases cs) auto
    then show ?thesis using False "2.IH"(2) by simp
  qed
qed


lemma adjacent_spaces_append_right:
  "adjacent_spaces ys \<Longrightarrow> adjacent_spaces (ys @ post)"
  by (induction ys rule: adjacent_spaces.induct) auto

lemma adjacent_spaces_append_left:
  "adjacent_spaces ys \<Longrightarrow> adjacent_spaces (pre @ ys)"
proof (induction pre)
  case Nil
  then show ?case by simp
next
  case (Cons p pre)
  then have "adjacent_spaces (pre @ ys)" by simp
  then show ?case by (cases "pre @ ys") auto
qed

lemma rev_dropWhile_rev_split:
  "rev (dropWhile P (rev ys)) @ rev (takeWhile P (rev ys)) = ys"
proof -
  have "rev (dropWhile P (rev ys)) @ rev (takeWhile P (rev ys)) =
      rev (takeWhile P (rev ys) @ dropWhile P (rev ys))"
    by (simp only: rev_append)
  also have "\<dots> = rev (rev ys)"
    by (simp only: takeWhile_dropWhile_id)
  finally show ?thesis by simp
qed

lemma strip_inner: "dropWhile is_space xs =
    strip xs @ rev (takeWhile is_space (rev (dropWhile is_space xs)))"
  unfolding strip_def by (rule rev_dropWhile_rev_split [symmetric])

lemma strip_decompose: "\<exists>pre post. xs = pre @ strip xs @ post"
proof -
  let ?inner = "dropWhile is_space xs"
  have "?inner = strip xs @ rev (takeWhile is_space (rev ?inner))"
    by (rule strip_inner)
  moreover have "xs = takeWhile is_space xs @ ?inner" by simp
  ultimately have "xs = takeWhile is_space xs @ strip xs @ rev (takeWhile is_space (rev ?inner))"
    by simp
  then show ?thesis by blast
qed

lemma not_adjacent_strip: "\<not> adjacent_spaces xs \<Longrightarrow> \<not> adjacent_spaces (strip xs)"
proof
  assume n: "\<not> adjacent_spaces xs" and a: "adjacent_spaces (strip xs)"
  obtain pre post where d: "xs = pre @ strip xs @ post"
    using strip_decompose by blast
  have "adjacent_spaces (pre @ strip xs @ post)"
    using a by (simp add: adjacent_spaces_append_left adjacent_spaces_append_right)
  with d n show False by simp
qed

lemma set_strip: "set (strip xs) \<subseteq> set xs"
proof -
  obtain pre post where d: "xs = pre @ strip xs @ post"
    using strip_decompose by blast
  have "set (strip xs) \<subseteq> set (pre @ strip xs @ post)" by auto
  with d show ?thesis by simp
qed

lemma length_strip: "length (strip xs) \<le> length xs"
proof -
  obtain pre post where d: "xs = pre @ strip xs @ post"
    using strip_decompose by blast
  have "length (strip xs) \<le> length (pre @ strip xs @ post)" by simp
  with d show ?thesis by simp
qed

lemma strip_ends:
  assumes "strip xs \<noteq> []"
  shows "\<not> is_space (hd (strip xs)) \<and> \<not> is_space (last (strip xs))"
proof -
  let ?inner = "dropWhile is_space xs"
  let ?d = "dropWhile is_space (rev ?inner)"
  have dn: "?d \<noteq> []" using assms by (simp add: strip_def)
  have "last (strip xs) = hd ?d"
    using dn by (simp add: strip_def last_rev)
  moreover have "\<not> is_space (hd ?d)" using dn by (rule hd_dropWhile)
  ultimately have l: "\<not> is_space (last (strip xs))" by simp
  have i: "?inner = strip xs @ rev (takeWhile is_space (rev ?inner))"
    by (rule strip_inner)
  then have "hd ?inner = hd (strip xs)"
    using assms by (metis hd_append2)
  moreover have "?inner \<noteq> []" using i assms by (metis append_is_Nil_conv)
  then have "\<not> is_space (hd ?inner)" by (rule hd_dropWhile)
  ultimately show ?thesis using l by simp
qed

lemma strip_fixed:
  assumes "xs = [] \<or> (\<not> is_space (hd xs) \<and> \<not> is_space (last xs))"
  shows "strip xs = xs"
proof (cases "xs = []")
  case True
  then show ?thesis by (simp add: strip_def)
next
  case False
  with assms have h: "\<not> is_space (hd xs)" and l: "\<not> is_space (last xs)" by auto
  from False h have d: "dropWhile is_space xs = xs" by (cases xs) auto
  from False l have "\<not> is_space (hd (rev xs))" by (simp add: hd_rev)
  with False have "dropWhile is_space (rev xs) = rev xs" by (cases "rev xs") auto
  with d show ?thesis by (simp add: strip_def)
qed

lemma clean_text_chars:
  assumes "c \<in> set (clean_text alnum t)"
  shows "kept_char alnum c \<and> (is_space c \<longrightarrow> c = 32)"
proof -
  from assms have ne: "t \<noteq> []" and c: "c \<in> set (strip (sub_special alnum (sub_spaces t)))"
    by (auto simp: clean_text_def split: if_splits)
  from c have f: "c \<in> set (sub_special alnum (sub_spaces t))"
    using set_strip by blast
  then have "kept_char alnum c" and "c \<in> set (sub_spaces t)"
    by (simp_all add: sub_special_def)
  then show ?thesis using sub_spaces_only_blank by blast
qed

lemma clean_text_ends:
  assumes "clean_text alnum t \<noteq> []"
  shows "\<not> is_space (hd (clean_text alnum t)) \<and> \<not> is_space (last (clean_text alnum t))"
  using assms strip_ends [of "sub_special alnum (sub_spaces t)"]
  by (auto simp: clean_text_def split: if_splits)

lemma clean_text_fixed:
  assumes "\<not> adjacent_spaces (clean_text alnum t)"
  shows "clean_text alnum (clean_text alnum t) = clean_text alnum t"
proof (cases "clean_text alnum t = []")
  case True
  then show ?thesis by (simp add: clean_text_def)
next
  case False
  let ?A = "clean_text alnum t"
  have "sub_spaces ?A = ?A"
    using assms clean_text_chars [of _ alnum t] by (intro sub_spaces_fixed) auto
  moreover have "sub_special alnum ?A = ?A"
    unfolding sub_special_def using clean_text_chars [of _ alnum t] by (intro filter_True) auto
  moreover have "strip ?A = ?A"
    using clean_text_ends [OF False] by (intro strip_fixed) simp
  ultimately show ?thesis
    using False by (simp add: clean_text_def [of alnum ?A])
qed

lemma clean_text_shrinks:
  assumes "adjacent_spaces (clean_text alnum t)"
  shows "clean_text alnum (clean_text alnum t) \<noteq> clean_text alnum t"
proof -
  let ?A = "clean_text alnum t"
  from assms have ne: "?A \<noteq> []" by auto
  have "length (clean_text alnum ?A) \<le> length (sub_special alnum (sub_spaces ?A))"
    using ne length_strip by (simp add: clean_text_def [of alnum ?A])
  also have "\<dots> \<le> length (sub_spaces ?A)" by (simp add: sub_special_def)
  also have "\<dots> < length ?A" using assms by (rule sub_spaces_shorter)
  finally show ?thesis by auto
qed

lemma clean_text_kept_input:
  assumes "\<forall>c\<in>set t. kept_char alnum c"
  shows "\<not> adjacent_spaces (clean_text alnum t)"
proof (cases "t = []")
  case True
  then show ?thesis by (simp add: clean_text_def)
next
  case False
  have "kept_char alnum 32" by (simp add: kept_char_def is_space_blank)
  with assms have "\<forall>c\<in>set (sub_spaces t). kept_char alnum c"
    using set_sub_spaces [of t] by auto
  then have "sub_special alnum (sub_spaces t) = sub_spaces t"
    by (simp add: sub_special_def)
  with False have "clean_text alnum t = strip (sub_spaces t)"
    by (simp add: clean_text_def)
  then show ?thesis
    using not_adjacent_strip [OF not_adjacent_sub_spaces] by simp
qed

text \<open>
  C5 as stated fails: a removed character between two spaces leaves two adjacent
  spaces, which a second cleaning collapses. \<^verbatim>\<open>"a @ b"\<close> is cleaned to \<^verbatim>\<open>"a  b"\<close>, and
  that to \<^verbatim>\<open>"a b"\<close>.
\<close>

theorem clean_text_not_idempotent:
  "clean_text ascii_alnum (clean_text ascii_alnum (of_ascii ''a @ b'')) \<noteq>
   clean_text ascii_alnum (of_ascii ''a @ b'')"
  by (simp add: clean_text_def of_ascii_def is_space_def strip_def sub_special_def
      kept_char_def is_word_def ascii_alnum_def)

text \<open>
  C5, amended: cleaning a cleaned text changes nothing exactly when the cleaned text
  has no two adjacent whitespace characters. That is so for every text made of
  characters that \<open>clean_text\<close> keeps, and for every text that has been cleaned twice.
\<close>

theorem clean_text_idempotent_iff:
  "(clean_text alnum (clean_text alnum t) = clean_text alnum t
      \<longleftrightarrow> \<not> adjacent_spaces (clean_text alnum t)) \<and>
   ((\<forall>c\<in>set t. kept_char alnum c) \<longrightarrow>
      clean_text alnum (clean_text alnum t) = clean_text alnum t) \<and>
   clean_text alnum (clean_text alnum (clean_text alnum t)) =
     clean_text alnum (clean_text alnum t)"
proof (intro conjI impI)
  show "clean_text alnum (clean_text alnum t) = clean_text alnum t
      \<longleftrightarrow> \<not> adjacent_spaces (clean_text alnum t)"
    using clean_text_fixed clean_text_shrinks by blast
next
  assume "\<forall>c\<in>set t. kept_char alnum c"
  then have "\<not> adjacent_spaces (clean_text alnum t)" by (rule clean_text_kept_input)
  then show "clean_text alnum (clean_text alnum t) = clean_text alnum t"
    by (rule clean_text_fixed)
next
  have "\<forall>c\<in>set (clean_text alnum t). kept_char alnum c"
    using clean_text_chars by blast
  then have "\<not> adjacent_spaces (clean_text alnum (clean_text alnum t))"
    by (rule clean_text_kept_input)
  then show "clean_text alnum (clean_text alnum (clean_text alnum t)) =
     clean_text alnum (clean_text alnum t)"
    by (rule clean_text_fixed)
qed


theorem clean_text_idempotent_iff_witness:
  "list_all (kept_char ascii_alnum) (of_ascii ''  Hello,   world! '') \<and>
   clean_text ascii_alnum (of_ascii ''  Hello,   world! '') = of_ascii ''Hello, world!'' \<and>
   clean_text ascii_alnum (clean_text ascii_alnum (of_ascii ''  Hello,   world! '')) =
     clean_text ascii_alnum (of_ascii ''  Hello,   world! '')"
proof -
  have k: "list_all (kept_char ascii_alnum) (of_ascii ''  Hello,   world! '')"
    by (simp add: of_ascii_def kept_char_def is_word_def ascii_alnum_def is_space_def)
  have c: "clean_text ascii_alnum (of_ascii ''  Hello,   world! '') = of_ascii ''Hello, world!''"
    by (simp add: clean_text_def of_ascii_def is_space_def strip_def sub_special_def
        kept_char_def is_word_def ascii_alnum_def)
  from k have "\<forall>c\<in>set (of_ascii ''  Hello,   world! ''). kept_char ascii_alnum c"
    by (simp only: list_all_iff)
  with clean_text_idempotent_iff [of ascii_alnum "of_ascii ''  Hello,   world! ''"]
  have "clean_text ascii_alnum (clean_text ascii_alnum (of_ascii ''  Hello,   world! '')) =
     clean_text ascii_alnum (of_ascii ''  Hello,   world! '')"
    by blast
  with k c show ?thesis by blast
qed

section \<open>Properties of the vector store\<close>

subsection \<open>The invariant\<close>

lemma map_of_None_iff_keys: "map_of al k = None \<longleftrightarrow> k \<notin> set (map fst al)"
  by (simp add: map_of_eq_None_iff)

lemma store_inv_init: "store_inv init"
  by (simp add: store_inv_def init_def)

lemma store_inv_add: "store_inv s \<Longrightarrow> store_inv (add i v md s)"
  by (simp add: store_inv_def add_def update_keys)

lemma snd_get: "snd (get i s) = s"
  by (simp add: get_def split: option.splits)

lemma snd_search: "snd (search q k s) = s"
  by (simp add: search_def Let_def split: sum.splits)

lemma store_inv_delete: "store_inv s \<Longrightarrow> store_inv (snd (delete i s))"
  by (auto simp: store_inv_def delete_def Let_def delete_keys distinct_removeAll
      map_of_None_iff_keys split: option.splits)

lemma store_inv_clear: "store_inv (clear s)"
  by (simp add: store_inv_def clear_def)

lemma store_inv_call: "store_inv s \<Longrightarrow> store_inv (call_store c s)"
  by (cases c)
     (simp_all add: store_inv_add snd_get snd_search store_inv_delete store_inv_clear)

lemma store_inv_run: "store_inv s \<Longrightarrow> store_inv (run calls s)"
  unfolding run_def by (induction calls arbitrary: s) (simp_all add: store_inv_call)

text \<open>
  C4: after any sequence of calls of \<open>add\<close>, \<open>delete\<close> and \<open>clear\<close> (and of \<open>get\<close> and
  \<open>search\<close>) on an empty store, the ids that hold a vector are the ids that hold a
  metadata entry.
\<close>

theorem vectors_metadata_same_ids:
  "dom (map_of (vectors (run calls init))) = dom (map_of (metadata (run calls init)))"
proof -
  have "store_inv (run calls (init :: ('a, 'b) vector_store))"
    by (rule store_inv_run [OF store_inv_init])
  then have "set (map fst (metadata (run calls (init :: ('a, 'b) vector_store)))) =
      set (map fst (vectors (run calls init)))"
    by (simp only: store_inv_def)
  then show ?thesis
    by (simp add: dom_map_of_conv_image_fst)
qed

text \<open>
  C10: \<open>search\<close> and \<open>get\<close> leave the store as it was: both dictionaries are the same
  after the call, whatever the query, \<open>top_k\<close> and id, and also when the call raises.
\<close>

theorem search_get_frame:
  "snd (search query_vector top_k s) = s \<and> snd (get i s) = s"
  by (simp add: search_def get_def Let_def split: sum.splits option.splits)

subsection \<open>Insert, then delete\<close>

text \<open>
  C7 as stated fails when the id is already stored: \<open>add\<close> overwrites the old entry and
  \<open>delete\<close> removes it, so the entry that was there before is gone.
\<close>

theorem add_delete_existing_id:
  "snd (delete ''a'' (add ''a'' [0, 1] None
          (add ''a'' [1, 0] (Some [(''title'', 7)]) (init :: (string, int) vector_store))))
   \<noteq> add ''a'' [1, 0] (Some [(''title'', 7)]) init"
  by (simp add: delete_def add_def init_def Let_def)

text \<open>
  C7, amended: when the id holds neither a vector nor a metadata entry, \<open>add\<close> followed
  by \<open>delete\<close> of that id returns \<open>True\<close> and leaves both dictionaries as they were,
  order included.
\<close>

theorem add_delete_fresh_id:
  "map_of (vectors s) i = None \<Longrightarrow> map_of (metadata s) i = None \<Longrightarrow>
   delete i (add i vector md s) = (Inr True, s)"
  by (simp add: delete_def add_def Let_def update_conv' delete_update_same map_of_None_iff_keys)

theorem add_delete_fresh_id_witness:
  "map_of (vectors (add ''a'' [1, 0] (Some [(''title'', 7)]) (init :: (string, int) vector_store)))
     ''b'' = None \<and>
   map_of (metadata (add ''a'' [1, 0] (Some [(''title'', 7)]) (init :: (string, int) vector_store)))
     ''b'' = None \<and>
   delete ''b'' (add ''b'' [0, 1] None
     (add ''a'' [1, 0] (Some [(''title'', 7)]) (init :: (string, int) vector_store))) =
   (Inr True, add ''a'' [1, 0] (Some [(''title'', 7)]) init)"
proof -
  have v: "map_of (vectors (add ''a'' [1, 0] (Some [(''title'', 7)])
      (init :: (string, int) vector_store))) ''b'' = None"
    by (simp add: add_def init_def)
  have m: "map_of (metadata (add ''a'' [1, 0] (Some [(''title'', 7)])
      (init :: (string, int) vector_store))) ''b'' = None"
    by (simp add: add_def init_def)
  from add_delete_fresh_id [OF v m] v m show ?thesis by simp
qed

subsection \<open>The sort\<close>

text \<open>
  On keys without NaN the insertion sort is the library's stable \<^const>\<open>sort_key\<close> under
  \<open>rank\<close>; with NaN it still returns a permutation.
\<close>

lemma rank_lt: "x \<noteq> NaN \<Longrightarrow> y \<noteq> NaN \<Longrightarrow> np_lt x y = (rank x < rank y)"
  by (cases x; cases y) simp_all

lemma rank_inj: "rank x = rank y \<longleftrightarrow> x = y"
  by (cases x; cases y) simp_all

lemma rank_le: "x \<noteq> NaN \<Longrightarrow> y \<noteq> NaN \<Longrightarrow> np_le x y = (rank x \<le> rank y)"
  by (cases x; cases y) (auto simp: np_le_def)

lemma set_insort_lt: "set (insort_lt key x ys) = insert x (set ys)"
  by (induction ys) auto

lemma length_insort_lt: "length (insort_lt key x ys) = Suc (length ys)"
  by (induction ys) auto

lemma distinct_insort_lt: "distinct (insort_lt key x ys) = (x \<notin> set ys \<and> distinct ys)"
  by (induction ys) (auto simp: set_insort_lt)

lemma set_list_sort: "set (list_sort key xs) = set xs"
  by (induction xs) (simp_all add: list_sort_def set_insort_lt)

lemma length_list_sort: "length (list_sort key xs) = length xs"
  by (induction xs) (simp_all add: list_sort_def length_insort_lt)

lemma distinct_list_sort: "distinct (list_sort key xs) = distinct xs"
  by (induction xs) (simp_all add: list_sort_def distinct_insort_lt set_list_sort [unfolded list_sort_def])

lemma insort_lt_insort_key:
  "key x \<noteq> NaN \<Longrightarrow> \<forall>y\<in>set ys. key y \<noteq> NaN \<Longrightarrow>
   insort_lt key x ys = insort_key (\<lambda>a. rank (key a)) x ys"
  by (induction ys) (auto simp: rank_lt)

lemma list_sort_sort_key:
  "\<forall>x\<in>set xs. key x \<noteq> NaN \<Longrightarrow> list_sort key xs = sort_key (\<lambda>a. rank (key a)) xs"
proof (induction xs)
  case Nil
  then show ?case by (simp add: list_sort_def)
next
  case (Cons x xs)
  then have ih: "list_sort key xs = sort_key (\<lambda>a. rank (key a)) xs" by simp
  have "list_sort key (x # xs) = insort_lt key x (list_sort key xs)"
    by (simp add: list_sort_def)
  also have "\<dots> = insort_key (\<lambda>a. rank (key a)) x (list_sort key xs)"
    using Cons.prems by (intro insort_lt_insort_key) (simp_all add: set_list_sort)
  finally show ?case by (simp add: ih)
qed

lemma set_sorted_reverse: "set (sorted_reverse key xs) = set xs"
  by (simp add: sorted_reverse_def set_list_sort)

lemma length_sorted_reverse: "length (sorted_reverse key xs) = length xs"
  by (simp add: sorted_reverse_def length_list_sort)

lemma distinct_sorted_reverse: "distinct (sorted_reverse key xs) = distinct xs"
  by (simp add: sorted_reverse_def distinct_list_sort)

lemma sorted_reverse_descending:
  assumes "\<forall>x\<in>set xs. key x \<noteq> NaN"
  shows "sorted_wrt (\<lambda>a b. np_le (key b) (key a)) (sorted_reverse key xs)"
proof -
  have n: "\<forall>x\<in>set (rev xs). key x \<noteq> NaN" using assms by simp
  have "sorted (map (\<lambda>a. rank (key a)) (sort_key (\<lambda>a. rank (key a)) (rev xs)))"
    by (rule sorted_sort_key)
  then have "sorted_wrt (\<lambda>a b. rank (key a) \<le> rank (key b)) (list_sort key (rev xs))"
    by (simp add: sorted_map list_sort_sort_key [OF n])
  then have "sorted_wrt (\<lambda>a b. rank (key b) \<le> rank (key a)) (sorted_reverse key xs)"
    by (simp add: sorted_reverse_def sorted_wrt_rev)
  then show ?thesis
  proof (rule sorted_wrt_mono_rel [rotated])
    fix a b
    assume "a \<in> set (sorted_reverse key xs)" "b \<in> set (sorted_reverse key xs)"
      and "rank (key b) \<le> rank (key a)"
    then show "np_le (key b) (key a)"
      using assms by (simp add: set_sorted_reverse rank_le)
  qed
qed

lemma sorted_reverse_stable:
  assumes "\<forall>x\<in>set xs. key x \<noteq> NaN"
  shows "filter (\<lambda>x. key x = k) (sorted_reverse key xs) = filter (\<lambda>x. key x = k) xs"
proof -
  have n: "\<forall>x\<in>set (rev xs). key x \<noteq> NaN" using assms by simp
  have "filter (\<lambda>x. key x = k) (sorted_reverse key xs) =
      rev (filter (\<lambda>x. rank (key x) = rank k) (sort_key (\<lambda>a. rank (key a)) (rev xs)))"
    by (simp add: sorted_reverse_def rev_filter [symmetric] list_sort_sort_key [OF n] rank_inj)
  also have "\<dots> = rev (filter (\<lambda>x. rank (key x) = rank k) (rev xs))"
    by (simp only: sort_key_stable)
  also have "\<dots> = filter (\<lambda>x. key x = k) xs"
    by (simp add: rev_filter [symmetric] rank_inj)
  finally show ?thesis .
qed

subsection \<open>Order of occurrence\<close>

lemma precedes_nth: "i < j \<Longrightarrow> j < length zs \<Longrightarrow> precedes (zs ! i) (zs ! j) zs"
proof (induction zs arbitrary: i j)
  case Nil
  then show ?case by simp
next
  case (Cons z zs)
  show ?case
  proof (cases i)
    case 0
    with Cons.prems show ?thesis by (cases j) auto
  next
    case (Suc i')
    with Cons.prems obtain j' where "j = Suc j'" "i' < j'" "j' < length zs"
      by (cases j) auto
    with Suc Cons.IH show ?thesis by simp
  qed
qed

lemma precedes_filterI: "precedes x y zs \<Longrightarrow> P x \<Longrightarrow> P y \<Longrightarrow> precedes x y (filter P zs)"
  by (induction zs) auto

lemma precedes_filterD: "precedes x y (filter P zs) \<Longrightarrow> precedes x y zs"
  by (induction zs) (auto split: if_splits)

lemma precedes_map: "precedes x y zs \<Longrightarrow> precedes (f x) (f y) (map f zs)"
  by (induction zs) auto

lemma precedes_positions:
  "precedes x y zs \<Longrightarrow> \<exists>i j. i < j \<and> j < length zs \<and> zs ! i = x \<and> zs ! j = y"
proof (induction zs)
  case Nil
  then show ?case by simp
next
  case (Cons z zs)
  show ?case
  proof (cases "z = x \<and> y \<in> set zs")
    case True
    then obtain j where "j < length zs" "zs ! j = y"
      by (auto simp: in_set_conv_nth)
    with True have "0 < Suc j \<and> Suc j < length (z # zs) \<and> (z # zs) ! 0 = x \<and> (z # zs) ! Suc j = y"
      by simp
    then show ?thesis by blast
  next
    case False
    with Cons.prems have "precedes x y zs" by auto
    then obtain i j where "i < j" "j < length zs" "zs ! i = x" "zs ! j = y"
      using Cons.IH by blast
    then have "Suc i < Suc j \<and> Suc j < length (z # zs) \<and> (z # zs) ! Suc i = x \<and> (z # zs) ! Suc j = y"
      by simp
    then show ?thesis by blast
  qed
qed

subsection \<open>What search returns\<close>

lemma update_fresh: "i \<notin> set (map fst al) \<Longrightarrow> AList.update i x al = al @ [(i, x)]"
  by (induction al) auto

lemma similarity_loop_scores:
  "distinct (map fst items) \<Longrightarrow> set (map fst items) \<inter> set (map fst acc) = {} \<Longrightarrow>
   \<forall>(i, v)\<in>set items. \<exists>x. cosine_similarity q v = Inr x \<Longrightarrow>
   similarity_loop q items acc = Inr (acc @ scores q items)"
proof (induction items arbitrary: acc)
  case Nil
  then show ?case by (simp add: scores_def)
next
  case (Cons p items)
  obtain i v where p: "p = (i, v)" by (cases p)
  from Cons.prems(3) p obtain x where x: "cosine_similarity q v = Inr x" by auto
  have fresh: "i \<notin> set (map fst acc)" using Cons.prems(2) p by auto
  have "similarity_loop q items (acc @ [(i, x)]) = Inr ((acc @ [(i, x)]) @ scores q items)"
    using Cons.prems p by (intro Cons.IH) auto
  then show ?case
    using p x fresh by (simp add: update_fresh scores_def score_def)
qed

lemma hits_ok:
  "\<forall>(i, x)\<in>set sel. i \<in> set (map fst (vectors s)) \<and> i \<in> set (map fst (metadata s)) \<Longrightarrow>
   \<exists>rs. hits s sel = Inr rs \<and> map hit_id rs = map fst sel \<and>
     map hit_similarity rs = map snd sel \<and>
     (\<forall>r\<in>set rs. map_of (vectors s) (hit_id r) = Some (hit_vector r) \<and>
        map_of (metadata s) (hit_id r) = Some (hit_metadata r))"
proof (induction sel)
  case Nil
  then show ?case by simp
next
  case (Cons p sel)
  obtain i x where p: "p = (i, x)" by (cases p)
  from Cons.prems p have "i \<in> set (map fst (vectors s))" "i \<in> set (map fst (metadata s))"
    by auto
  then have "map_of (vectors s) i \<noteq> None" "map_of (metadata s) i \<noteq> None"
    by (simp_all only: map_of_None_iff_keys not_not)
  then obtain v m where
    v: "map_of (vectors s) i = Some v" and m: "map_of (metadata s) i = Some m"
    by auto
  from Cons obtain rs where rs: "hits s sel = Inr rs" "map hit_id rs = map fst sel"
    "map hit_similarity rs = map snd sel"
    "\<forall>r\<in>set rs. map_of (vectors s) (hit_id r) = Some (hit_vector r) \<and>
        map_of (metadata s) (hit_id r) = Some (hit_metadata r)"
    by auto
  show ?case
    using p v m rs by simp
qed

lemma slice_to_take: "\<exists>m. slice_to k xs = take m xs"
  by (auto simp: slice_to_def)

lemma slice_to_all: "int (length xs) < k \<Longrightarrow> slice_to k xs = xs"
  by (simp add: slice_to_def)

lemma search_result:
  assumes inv: "store_inv s"
    and ok: "\<forall>(i, v)\<in>set (vectors s). \<exists>x. cosine_similarity q v = Inr x"
  shows "\<exists>rs. fst (search q top_k s) = Inr rs \<and>
     map hit_id rs = map fst (slice_to top_k (sorted_reverse snd (scores q (vectors s)))) \<and>
     map hit_similarity rs = map snd (slice_to top_k (sorted_reverse snd (scores q (vectors s)))) \<and>
     (\<forall>r\<in>set rs. map_of (vectors s) (hit_id r) = Some (hit_vector r) \<and>
        map_of (metadata s) (hit_id r) = Some (hit_metadata r))"
proof (cases "vectors s = []")
  case True
  then show ?thesis
    by (simp add: search_def scores_def sorted_reverse_def list_sort_def slice_to_def)
next
  case False
  let ?sel = "slice_to top_k (sorted_reverse snd (scores q (vectors s)))"
  have loop: "similarity_loop q (vectors s) [] = Inr (scores q (vectors s))"
    using similarity_loop_scores [of "vectors s" "[]" q] inv ok by (simp add: store_inv_def)
  obtain m where m: "?sel = take m (sorted_reverse snd (scores q (vectors s)))"
    using slice_to_take by blast
  have "set ?sel \<subseteq> set (scores q (vectors s))"
    unfolding m using set_take_subset [of m "sorted_reverse snd (scores q (vectors s))"]
    by (simp add: set_sorted_reverse)
  then have "\<forall>(i, x)\<in>set ?sel. i \<in> set (map fst (vectors s))"
    by (force simp: scores_def)
  then have "\<forall>(i, x)\<in>set ?sel. i \<in> set (map fst (vectors s)) \<and> i \<in> set (map fst (metadata s))"
    using inv by (simp add: store_inv_def)
  from hits_ok [OF this] show ?thesis
    using False loop by (simp add: search_def)
qed

lemma scores_keys: "map fst (scores q items) = map fst items"
  by (induction items) (auto simp: scores_def)

lemma scores_numbers:
  assumes "\<forall>(i, v)\<in>set items. \<exists>x. cosine_similarity q v = Inr x \<and> x \<noteq> NaN"
  shows "\<forall>p\<in>set (scores q items). snd p \<noteq> NaN"
  using assms by (fastforce simp: scores_def score_def)

lemma descending_take:
  assumes "sorted_wrt (\<lambda>a b. np_le (snd b) (snd a)) xs"
  shows "descending (map snd (take m xs))"
proof -
  have "sorted_wrt (\<lambda>a b. np_le (snd b) (snd a)) (take m xs)"
    using assms by (rule sorted_wrt_take)
  then show ?thesis by (simp add: descending_def sorted_wrt_map)
qed

lemma nth_of_maps:
  assumes "map f rs = map g (take m xs)" and "n < length rs"
  shows "f (rs ! n) = g (xs ! n) \<and> n < length xs"
proof -
  have len: "length rs = length (take m xs)"
    using assms(1) by (rule map_eq_imp_length_eq)
  with assms(2) have n: "n < m" "n < length xs" by simp_all
  have "f (rs ! n) = map f rs ! n" using assms(2) by simp
  also have "\<dots> = map g (take m xs) ! n" by (simp only: assms(1))
  also have "\<dots> = g (xs ! n)" using n by simp
  finally show ?thesis using n by simp
qed

lemmas search_eval =
  search_def add_def init_def cosine_similarity_def np_dot_def np_norm_def np_div_def
  sorted_reverse_def list_sort_def slice_to_def Let_def

text \<open>
  C2: the code breaks the property when a similarity is NaN. \<open>search\<close> divides by the
  product of the norms without a guard, so a stored vector (or a query) of norm zero
  has similarity NaN; every comparison with NaN is false, and the sort leaves the list
  in an order that is not descending. With \<^verbatim>\<open>a = [0,1]\<close>, \<^verbatim>\<open>z = [0,0]\<close>, \<^verbatim>\<open>b = [1,0]\<close>
  inserted in this order and the query \<^verbatim>\<open>[1,0]\<close>, the similarities are 0, NaN, 1. The
  reversed list of keys 1, NaN, 0 has no element \<^verbatim>\<open><\<close> its predecessor, so the sort
  moves nothing, and the result is \<open>a\<close> (0), \<open>z\<close> (NaN), \<open>b\<close> (1): the smaller similarity
  comes first.
\<close>

theorem search_nan_not_sorted:
  "fst (search [1, 0] 5
     (add ''b'' [1, 0] None (add ''z'' [0, 0] None (add ''a'' [0, 1] None
        (init :: (string, int) vector_store))))) =
   Inr [\<lparr>hit_id = ''a'', hit_similarity = Num 0, hit_vector = [0, 1], hit_metadata = []\<rparr>,
        \<lparr>hit_id = ''z'', hit_similarity = NaN, hit_vector = [0, 0], hit_metadata = []\<rparr>,
        \<lparr>hit_id = ''b'', hit_similarity = Num 1, hit_vector = [1, 0], hit_metadata = []\<rparr>] \<and>
   \<not> descending [Num 0, NaN, Num 1] \<and> np_lt (Num 0) (Num 1)"
  by (simp add: search_eval descending_def np_le_def)

text \<open>
  Without NaN the property of C2 holds: when every stored vector has the query's
  dimension and no similarity is NaN, \<open>search\<close> returns its results in descending order
  of similarity, and of two results with equal similarity the one listed first has the
  id that was inserted first (it stands first in the dictionary \<open>vectors\<close>).
\<close>

theorem search_sorted_ties_in_insertion_order:
  assumes inv: "store_inv s"
    and num: "\<forall>(i, v)\<in>set (vectors s). \<exists>x. cosine_similarity q v = Inr x \<and> x \<noteq> NaN"
  shows "\<exists>rs. fst (search q top_k s) = Inr rs \<and> descending (map hit_similarity rs) \<and>
     (\<forall>a b. a < b \<and> b < length rs \<and> hit_similarity (rs ! a) = hit_similarity (rs ! b) \<longrightarrow>
        (\<exists>i j. i < j \<and> j < length (vectors s) \<and>
           fst (vectors s ! i) = hit_id (rs ! a) \<and> fst (vectors s ! j) = hit_id (rs ! b)))"
proof -
  let ?sc = "scores q (vectors s)"
  let ?L = "sorted_reverse snd ?sc"
  have ok: "\<forall>(i, v)\<in>set (vectors s). \<exists>x. cosine_similarity q v = Inr x"
    using num by fast
  have nonan: "\<forall>p\<in>set ?sc. snd p \<noteq> NaN"
    using num by (rule scores_numbers)
  obtain rs where rs: "fst (search q top_k s) = Inr rs"
    and ids: "map hit_id rs = map fst (slice_to top_k ?L)"
    and sims: "map hit_similarity rs = map snd (slice_to top_k ?L)"
    using search_result [OF inv ok, of top_k] by blast
  obtain m where m: "slice_to top_k ?L = take m ?L"
    using slice_to_take by blast
  have desc: "descending (map hit_similarity rs)"
    unfolding sims m using sorted_reverse_descending [OF nonan] by (rule descending_take)
  have ties: "\<exists>i j. i < j \<and> j < length (vectors s) \<and>
           fst (vectors s ! i) = hit_id (rs ! a) \<and> fst (vectors s ! j) = hit_id (rs ! b)"
    if ab: "a < b" and b: "b < length rs"
      and eq: "hit_similarity (rs ! a) = hit_similarity (rs ! b)" for a b
  proof -
    from ab b have a: "a < length rs" by simp
    have ida: "hit_id (rs ! a) = fst (?L ! a)"
      using nth_of_maps [OF ids [unfolded m] a] by simp
    have idb: "hit_id (rs ! b) = fst (?L ! b)" and bL: "b < length ?L"
      using nth_of_maps [OF ids [unfolded m] b] by simp_all
    have sa: "hit_similarity (rs ! a) = snd (?L ! a)"
      using nth_of_maps [OF sims [unfolded m] a] by simp
    have sb: "hit_similarity (rs ! b) = snd (?L ! b)"
      using nth_of_maps [OF sims [unfolded m] b] by simp
    let ?k = "snd (?L ! a)"
    have kb: "snd (?L ! b) = ?k"
      using eq unfolding sa sb by (rule sym)
    have "precedes (?L ! a) (?L ! b) ?L"
      using ab bL by (rule precedes_nth)
    then have "precedes (?L ! a) (?L ! b) (filter (\<lambda>p. snd p = ?k) ?L)"
    proof (rule precedes_filterI)
      show "snd (?L ! a) = ?k" by (rule refl)
      show "snd (?L ! b) = ?k" by (rule kb)
    qed
    then have "precedes (?L ! a) (?L ! b) (filter (\<lambda>p. snd p = ?k) ?sc)"
      by (simp only: sorted_reverse_stable [OF nonan])
    then have "precedes (?L ! a) (?L ! b) ?sc"
      by (rule precedes_filterD)
    then have "precedes (fst (?L ! a)) (fst (?L ! b)) (map fst ?sc)"
      by (rule precedes_map)
    then have "precedes (hit_id (rs ! a)) (hit_id (rs ! b)) (map fst (vectors s))"
      by (simp only: ida idb scores_keys)
    from precedes_positions [OF this] obtain i j where ij: "i < j"
      "j < length (map fst (vectors s))"
      "map fst (vectors s) ! i = hit_id (rs ! a)" "map fst (vectors s) ! j = hit_id (rs ! b)"
      by (elim exE conjE)
    then have "i < j \<and> j < length (vectors s) \<and>
           fst (vectors s ! i) = hit_id (rs ! a) \<and> fst (vectors s ! j) = hit_id (rs ! b)"
      by simp
    then show ?thesis by blast
  qed
  show ?thesis
  proof (rule exI [of _ rs], intro conjI)
    show "fst (search q top_k s) = Inr rs" by (rule rs)
    show "descending (map hit_similarity rs)" by (rule desc)
    show "\<forall>a b. a < b \<and> b < length rs \<and> hit_similarity (rs ! a) = hit_similarity (rs ! b) \<longrightarrow>
        (\<exists>i j. i < j \<and> j < length (vectors s) \<and>
           fst (vectors s ! i) = hit_id (rs ! a) \<and> fst (vectors s ! j) = hit_id (rs ! b))"
    proof (intro allI impI)
      fix a b
      assume "a < b \<and> b < length rs \<and> hit_similarity (rs ! a) = hit_similarity (rs ! b)"
      then have "a < b" "b < length rs" "hit_similarity (rs ! a) = hit_similarity (rs ! b)"
        by simp_all
      then show "\<exists>i j. i < j \<and> j < length (vectors s) \<and>
           fst (vectors s ! i) = hit_id (rs ! a) \<and> fst (vectors s ! j) = hit_id (rs ! b)"
        by (rule ties)
    qed
  qed
qed

theorem search_sorted_ties_in_insertion_order_witness:
  "store_inv (add ''c'' [1, 0] None (add ''b'' [0, 1] None (add ''a'' [1, 0] None
        (init :: (string, int) vector_store)))) \<and>
   map (\<lambda>(i, v). cosine_similarity [1, 0] v)
     (vectors (add ''c'' [1, 0] None (add ''b'' [0, 1] None (add ''a'' [1, 0] None
        (init :: (string, int) vector_store))))) = [Inr (Num 1), Inr (Num 0), Inr (Num 1)] \<and>
   fst (search [1, 0] 2
     (add ''c'' [1, 0] None (add ''b'' [0, 1] None (add ''a'' [1, 0] None
        (init :: (string, int) vector_store))))) =
   Inr [\<lparr>hit_id = ''a'', hit_similarity = Num 1, hit_vector = [1, 0], hit_metadata = []\<rparr>,
        \<lparr>hit_id = ''c'', hit_similarity = Num 1, hit_vector = [1, 0], hit_metadata = []\<rparr>] \<and>
   descending [Num 1, Num 1] \<and>
   (\<exists>i j. i < j \<and> j < 3 \<and>
      fst (vectors (add ''c'' [1, 0] None (add ''b'' [0, 1] None (add ''a'' [1, 0] None
        (init :: (string, int) vector_store)))) ! i) = ''a'' \<and>
      fst (vectors (add ''c'' [1, 0] None (add ''b'' [0, 1] None (add ''a'' [1, 0] None
        (init :: (string, int) vector_store)))) ! j) = ''c'')"
proof -
  let ?s = "add ''c'' [1, 0] None (add ''b'' [0, 1] None (add ''a'' [1, 0] None
        (init :: (string, int) vector_store)))"
  let ?hits = "[\<lparr>hit_id = ''a'', hit_similarity = Num 1, hit_vector = [1, 0], hit_metadata = []\<rparr>,
        \<lparr>hit_id = ''c'', hit_similarity = Num 1, hit_vector = [1, 0], hit_metadata = ([] :: (string, int) pydict)\<rparr>]"
  have inv: "store_inv ?s"
    by (simp add: store_inv_def add_def init_def)
  have cos: "map (\<lambda>(i, v). cosine_similarity [1, 0] v) (vectors ?s) =
      [Inr (Num 1), Inr (Num 0), Inr (Num 1)]"
    by (simp add: search_eval)
  have num: "\<forall>(i, v)\<in>set (vectors ?s). \<exists>x. cosine_similarity [1, 0] v = Inr x \<and> x \<noteq> NaN"
    by (simp add: search_eval)
  have res: "fst (search [1, 0] 2 ?s) = Inr ?hits"
    by (simp add: search_eval)
  have len: "length (vectors ?s) = 3"
    by (simp add: add_def init_def)
  from search_sorted_ties_in_insertion_order [OF inv num, of 2]
  obtain rs where rs: "fst (search [1, 0] 2 ?s) = Inr rs"
    and d: "descending (map hit_similarity rs)"
    and t: "\<forall>a b. a < b \<and> b < length rs \<and> hit_similarity (rs ! a) = hit_similarity (rs ! b) \<longrightarrow>
        (\<exists>i j. i < j \<and> j < length (vectors ?s) \<and>
           fst (vectors ?s ! i) = hit_id (rs ! a) \<and> fst (vectors ?s ! j) = hit_id (rs ! b))"
    by (elim exE conjE)
  from rs res have eq: "rs = ?hits" by simp
  from d have d': "descending [Num 1, Num 1]" unfolding eq by simp
  have "(0::nat) < 1 \<and> 1 < length rs \<and> hit_similarity (rs ! 0) = hit_similarity (rs ! 1)"
    unfolding eq by simp
  with t have "\<exists>i j. i < j \<and> j < length (vectors ?s) \<and>
           fst (vectors ?s ! i) = hit_id (rs ! 0) \<and> fst (vectors ?s ! j) = hit_id (rs ! 1)"
    by blast
  then have t': "\<exists>i j. i < j \<and> j < 3 \<and> fst (vectors ?s ! i) = ''a'' \<and> fst (vectors ?s ! j) = ''c''"
    unfolding eq len by simp
  from inv cos res d' t' show ?thesis by (intro conjI)
qed

subsection \<open>More results asked for than stored\<close>

lemma pair_of_maps:
  assumes "map f rs = map fst xs" and "map g rs = map snd xs" and "r \<in> set rs"
  shows "(f r, g r) \<in> set xs"
proof -
  from assms(3) obtain n where n: "n < length rs" "rs ! n = r"
    by (auto simp: in_set_conv_nth)
  have len: "length rs = length xs"
    using assms(1) by (rule map_eq_imp_length_eq)
  have "f r = map f rs ! n" using n by simp
  also have "\<dots> = fst (xs ! n)" using n len by (simp add: assms(1))
  finally have f: "f r = fst (xs ! n)" .
  have "g r = map g rs ! n" using n by simp
  also have "\<dots> = snd (xs ! n)" using n len by (simp add: assms(2))
  finally have g: "g r = snd (xs ! n)" .
  have "xs ! n \<in> set xs" using n len by simp
  with f g show ?thesis by simp
qed

lemma distinct_keys_sorted_reverse:
  assumes "distinct (map fst xs)"
  shows "distinct (map fst (sorted_reverse key xs))"
proof -
  have "card (set (map fst (sorted_reverse key xs))) = card (set (map fst xs))"
    by (simp add: set_sorted_reverse)
  also have "\<dots> = length (map fst xs)"
    using assms by (rule distinct_card)
  also have "\<dots> = length (map fst (sorted_reverse key xs))"
    by (simp add: length_sorted_reverse)
  finally show ?thesis by (rule card_distinct)
qed

text \<open>
  C3: the code breaks the property at the same place as C2. With a NaN similarity and
  \<open>top_k\<close> above the number of records, the \<open>n\<close> results are all there, but not in
  descending order.
\<close>

theorem search_top_k_exceeds_count_nan:
  "int (length (vectors (add ''b'' [0, 1] None (add ''z'' [0, 0] None (add ''a'' [- 1, 0] None
        (init :: (string, int) vector_store)))))) < 4 \<and>
   fst (search [1, 0] 4
     (add ''b'' [0, 1] None (add ''z'' [0, 0] None (add ''a'' [- 1, 0] None
        (init :: (string, int) vector_store))))) =
   Inr [\<lparr>hit_id = ''a'', hit_similarity = Num (- 1), hit_vector = [- 1, 0], hit_metadata = []\<rparr>,
        \<lparr>hit_id = ''z'', hit_similarity = NaN, hit_vector = [0, 0], hit_metadata = []\<rparr>,
        \<lparr>hit_id = ''b'', hit_similarity = Num 0, hit_vector = [0, 1], hit_metadata = []\<rparr>] \<and>
   \<not> descending [Num (- 1), NaN, Num 0] \<and> np_lt (Num (- 1)) (Num 0)"
  by (simp add: search_eval descending_def np_le_def)

text \<open>
  Without NaN the property of C3 holds: when every stored vector has the query's
  dimension and \<open>top_k\<close> exceeds the number \<open>n\<close> of stored records, \<open>search\<close> returns
  exactly \<open>n\<close> results, one for each stored id, each with the stored vector, the stored
  metadata and the cosine similarity of that vector; they are in descending order of
  similarity when none of the similarities is NaN.
\<close>

theorem search_top_k_exceeds_count:
  assumes inv: "store_inv s"
    and dim: "\<forall>(i, v)\<in>set (vectors s). length v = length q"
    and k: "int (length (vectors s)) < top_k"
  shows "\<exists>rs. fst (search q top_k s) = Inr rs \<and> length rs = length (vectors s) \<and>
     distinct (map hit_id rs) \<and> set (map hit_id rs) = set (map fst (vectors s)) \<and>
     (\<forall>r\<in>set rs. map_of (vectors s) (hit_id r) = Some (hit_vector r) \<and>
        map_of (metadata s) (hit_id r) = Some (hit_metadata r) \<and>
        cosine_similarity q (hit_vector r) = Inr (hit_similarity r)) \<and>
     (NaN \<notin> set (map hit_similarity rs) \<longrightarrow> descending (map hit_similarity rs))"
proof -
  let ?sc = "scores q (vectors s)"
  let ?L = "sorted_reverse snd ?sc"
  have cos: "cosine_similarity q v = Inr (score q v)" if "(i, v) \<in> set (vectors s)" for i v
    using dim that by (auto simp: score_def cosine_similarity_def np_dot_def)
  then have ok: "\<forall>(i, v)\<in>set (vectors s). \<exists>x. cosine_similarity q v = Inr x"
    by fast
  have all: "slice_to top_k ?L = ?L"
    using k by (intro slice_to_all) (simp add: length_sorted_reverse scores_def)
  obtain rs where rs: "fst (search q top_k s) = Inr rs"
    and ids: "map hit_id rs = map fst ?L"
    and sims: "map hit_similarity rs = map snd ?L"
    and look: "\<forall>r\<in>set rs. map_of (vectors s) (hit_id r) = Some (hit_vector r) \<and>
        map_of (metadata s) (hit_id r) = Some (hit_metadata r)"
    using search_result [OF inv ok, of top_k] unfolding all by (elim exE conjE)
  have dk: "distinct (map fst (vectors s))"
    using inv by (simp add: store_inv_def)
  have len: "length rs = length (vectors s)"
  proof -
    have "length rs = length ?L" using ids by (rule map_eq_imp_length_eq)
    then show ?thesis by (simp add: length_sorted_reverse scores_def)
  qed
  have dist: "distinct (map hit_id rs)"
    unfolding ids using dk by (intro distinct_keys_sorted_reverse) (simp add: scores_keys)
  have "set (map fst ?L) = set (map fst ?sc)"
    by (simp add: set_sorted_reverse)
  then have keys: "set (map hit_id rs) = set (map fst (vectors s))"
    by (simp only: ids scores_keys)
  have each: "map_of (vectors s) (hit_id r) = Some (hit_vector r) \<and>
        map_of (metadata s) (hit_id r) = Some (hit_metadata r) \<and>
        cosine_similarity q (hit_vector r) = Inr (hit_similarity r)" if r: "r \<in> set rs" for r
  proof -
    have "(hit_id r, hit_similarity r) \<in> set ?L"
      using ids sims r by (rule pair_of_maps)
    then have "(hit_id r, hit_similarity r) \<in> set ?sc"
      by (simp only: set_sorted_reverse)
    then obtain v where v: "(hit_id r, v) \<in> set (vectors s)" "hit_similarity r = score q v"
      by (auto simp: scores_def)
    from v(1) dk have "map_of (vectors s) (hit_id r) = Some v"
      by simp
    with look r have "hit_vector r = v" by simp
    with cos [OF v(1)] v(2) look r show ?thesis by simp
  qed
  have sorted: "descending (map hit_similarity rs)" if "NaN \<notin> set (map hit_similarity rs)"
  proof -
    from that have "NaN \<notin> snd ` set ?sc"
      by (simp add: sims set_sorted_reverse)
    then have "\<forall>p\<in>set ?sc. snd p \<noteq> NaN"
      by (metis imageI)
    then have "sorted_wrt (\<lambda>a b. np_le (snd b) (snd a)) ?L"
      by (rule sorted_reverse_descending)
    then show ?thesis
      by (simp add: sims descending_def sorted_wrt_map)
  qed
  show ?thesis
  proof (rule exI [of _ rs], intro conjI)
    show "fst (search q top_k s) = Inr rs" by (rule rs)
    show "length rs = length (vectors s)" by (rule len)
    show "distinct (map hit_id rs)" by (rule dist)
    show "set (map hit_id rs) = set (map fst (vectors s))" by (rule keys)
    show "\<forall>r\<in>set rs. map_of (vectors s) (hit_id r) = Some (hit_vector r) \<and>
        map_of (metadata s) (hit_id r) = Some (hit_metadata r) \<and>
        cosine_similarity q (hit_vector r) = Inr (hit_similarity r)"
      using each by (intro ballI)
    show "NaN \<notin> set (map hit_similarity rs) \<longrightarrow> descending (map hit_similarity rs)"
      using sorted by (intro impI)
  qed
qed

theorem search_top_k_exceeds_count_witness:
  "store_inv (add ''b'' [1, 0] (Some [(''title'', 7)]) (add ''a'' [0, 1] None
        (init :: (string, int) vector_store))) \<and>
   map (\<lambda>(i, v). length v)
     (vectors (add ''b'' [1, 0] (Some [(''title'', 7)]) (add ''a'' [0, 1] None
        (init :: (string, int) vector_store)))) = [2, 2] \<and>
   int (length (vectors (add ''b'' [1, 0] (Some [(''title'', 7)]) (add ''a'' [0, 1] None
        (init :: (string, int) vector_store))))) < 5 \<and>
   fst (search [1, 0] 5
     (add ''b'' [1, 0] (Some [(''title'', 7)]) (add ''a'' [0, 1] None
        (init :: (string, int) vector_store)))) =
   Inr [\<lparr>hit_id = ''b'', hit_similarity = Num 1, hit_vector = [1, 0],
          hit_metadata = [(''title'', 7)]\<rparr>,
        \<lparr>hit_id = ''a'', hit_similarity = Num 0, hit_vector = [0, 1], hit_metadata = []\<rparr>] \<and>
   descending [Num 1, Num 0]"
proof -
  let ?s = "add ''b'' [1, 0] (Some [(''title'', 7)]) (add ''a'' [0, 1] None
        (init :: (string, int) vector_store))"
  let ?hits = "[\<lparr>hit_id = ''b'', hit_similarity = Num 1, hit_vector = [1, 0],
          hit_metadata = [(''title'', 7 :: int)]\<rparr>,
        \<lparr>hit_id = ''a'', hit_similarity = Num 0, hit_vector = [0, 1], hit_metadata = []\<rparr>]"
  have inv: "store_inv ?s"
    by (simp add: store_inv_def add_def init_def)
  have lens: "map (\<lambda>(i, v). length v) (vectors ?s) = [2, 2]"
    by (simp add: add_def init_def)
  have dim: "\<forall>(i, v)\<in>set (vectors ?s). length v = length [1, 0 :: real]"
    by (simp add: add_def init_def)
  have k: "int (length (vectors ?s)) < 5"
    by (simp add: add_def init_def)
  have res: "fst (search [1, 0] 5 ?s) = Inr ?hits"
    by (simp add: search_eval)
  from search_top_k_exceeds_count [OF inv dim k]
  obtain rs where rs: "fst (search [1, 0] 5 ?s) = Inr rs"
    and d: "NaN \<notin> set (map hit_similarity rs) \<longrightarrow> descending (map hit_similarity rs)"
    by (elim exE conjE)
  from rs res have eq: "rs = ?hits" by simp
  from d have d': "descending [Num 1, Num 0]" unfolding eq by simp
  from inv lens k res d' show ?thesis by (intro conjI)
qed

section \<open>Properties of the configuration\<close>

lemma config_get_absent: "map_of (config_dict c) key = None \<Longrightarrow> config_get c key dflt = dflt"
  by (simp add: config_get_def)

lemma config_get_present: "map_of (config_dict c) key = Some v \<Longrightarrow> config_get c key dflt = v"
  by (simp add: config_get_def)

text \<open>
  C9 as stated fails: \<open>config_get\<close> looks the whole key up in the top-level
  dictionary. On a nested configuration the dotted key \<^verbatim>\<open>vector_db.collection_name\<close>
  is absent there and the default comes back, where a path lookup along the dots
  (\<open>spec_get_dotted\<close>) finds the nested value.
\<close>

theorem config_get_dotted_key_unresolved:
  "config_get
     \<lparr>config_path = ''config/config.yaml'',
      config_dict = [(''vector_db'', YDict [(''collection_name'', YStr ''drug_knowledge'')])]\<rparr>
     ''vector_db.collection_name'' YNone = YNone \<and>
   spec_get_dotted
     \<lparr>config_path = ''config/config.yaml'',
      config_dict = [(''vector_db'', YDict [(''collection_name'', YStr ''drug_knowledge'')])]\<rparr>
     ''vector_db.collection_name'' YNone = YStr ''drug_knowledge''"
  by (simp add: config_get_def spec_get_dotted_def)

text \<open>
  C9, amended: \<open>config_get\<close> returns the value stored in the top-level dictionary
  under the key as it is written, dots included, and the default when the top-level
  dictionary has no such key; nothing but that one top-level entry decides the result.
  It is a total function: no path raises.
\<close>

theorem config_get_top_level:
  "(map_of (config_dict c) key = None \<longrightarrow> config_get c key dflt = dflt) \<and>
   (\<forall>v. map_of (config_dict c) key = Some v \<longrightarrow> config_get c key dflt = v) \<and>
   (\<forall>c'. map_of (config_dict c') key = map_of (config_dict c) key \<longrightarrow>
      config_get c' key dflt = config_get c key dflt)"
  by (simp add: config_get_def)

theorem config_get_top_level_witness:
  "map_of (config_dict
     \<lparr>config_path = ''config/config.yaml'',
      config_dict = [(''vector_db.collection_name'', YStr ''drug_knowledge'')]\<rparr>)
     ''vector_db.embedding_model'' = None \<and>
   config_get
     \<lparr>config_path = ''config/config.yaml'',
      config_dict = [(''vector_db.collection_name'', YStr ''drug_knowledge'')]\<rparr>
     ''vector_db.embedding_model'' (YStr ''all-MiniLM-L6-v2'') = YStr ''all-MiniLM-L6-v2'' \<and>
   config_get
     \<lparr>config_path = ''config/config.yaml'',
      config_dict = [(''vector_db.collection_name'', YStr ''drug_knowledge'')]\<rparr>
     ''vector_db.collection_name'' YNone = YStr ''drug_knowledge''"
proof -
  let ?c = "\<lparr>config_path = ''config/config.yaml'',
      config_dict = [(''vector_db.collection_name'', YStr ''drug_knowledge'')]\<rparr>"
  have absent: "map_of (config_dict ?c) ''vector_db.embedding_model'' = None"
    by simp
  have present: "map_of (config_dict ?c) ''vector_db.collection_name'' = Some (YStr ''drug_knowledge'')"
    by simp
  from config_get_top_level [of ?c "''vector_db.embedding_model''" "YStr ''all-MiniLM-L6-v2''"] absent
  have a: "config_get ?c ''vector_db.embedding_model'' (YStr ''all-MiniLM-L6-v2'') =
      YStr ''all-MiniLM-L6-v2''"
    by blast
  from config_get_top_level [of ?c "''vector_db.collection_name''" YNone] present
  have p: "config_get ?c ''vector_db.collection_name'' YNone = YStr ''drug_knowledge''"
    by blast
  from absent a p show ?thesis by (intro conjI)
qed

end
